theory Spec2Isabelle
  imports Main
begin

section \<open>The object model of flow.py\<close>

text \<open>
  Python objects have identity: an interface is compared with \<open>==\<close> by reference, and
  the successor and predecessor lists hold references. The model keeps two heaps, one of
  interfaces and one of nodes, indexed by references (natural numbers), and every method
  that mutates an object returns the updated store. A raised exception is the \<open>Inl\<close>
  branch of a sum.
\<close>

type_synonym nref = nat
type_synonym iref = nat

text \<open>\<^verbatim>\<open>PARAMETER, INPUT, RESULT, OUTPUT = range(4)\<close>\<close>

datatype itype = PARAMETER | INPUT | RESULT | OUTPUT

text \<open>The interface classes; the last three derive directly from \<open>Interface\<close>.\<close>

datatype iclass = Interface | InterfaceValue | InterfaceStream | InterfaceList

text \<open>The node classes that flow.py defines.\<close>

datatype nclass =
    Node | ProcessNode | InputNode | FileInputNode | ValueInputNode
  | CommandLineParameterInputNode | CommandLineStdinInputNode | FileListInputNode
  | OutputNode | FileOutputNode | CommandLineStdoutOutputNode

text \<open>The values an interface holds: \<open>None\<close>, a string, or a number.\<close>

datatype pyval = PyNone | PyStr string | PyInt int

text \<open>
  The exceptions. flow.py raises plain \<open>Exception\<close> objects that differ in their message;
  each message gets a constructor:
  \<^item> \<open>InvalidConnection\<close>: "Cannot connect slots";
  \<^item> \<open>NotConnected\<close>: "Should not load interface that is not connected.";
  \<^item> \<open>NodeNotFound\<close>: "Node with id '...' not found.";
  \<^item> \<open>InterfaceNotFound\<close>: "Interface with name '...' not found on node ...";
  \<^item> \<open>UnknownNodeType\<close>: "Unknown node type '...'";
  \<^item> \<open>ValueError\<close>: what \<open>list.remove\<close> raises for an absent element;
  \<^item> \<open>IOError\<close>: what \<open>open\<close> raises for a file that is absent or not named;
  \<^item> \<open>RunFault\<close>: any exception that leaves a node's \<open>run()\<close>.
\<close>

datatype error =
    InvalidConnection | NotConnected | NodeNotFound | InterfaceNotFound
  | UnknownNodeType | ValueError | IOError | RunFault

record interface =
  node :: nref
  name :: string
  itype :: itype
  slot :: bool
  iclass :: iclass
  ivalue :: pyval
  stream :: "nat option"
  successors :: "iref list"
  predecessors :: "iref list"
  readypredecessors :: "iref list"

text \<open>
  \<open>readypredecessors\<close> and \<open>readyinterfaces\<close> are dictionaries whose values are all
  \<open>True\<close>; only their keys are read (\<open>len(d.keys())\<close>), so each is kept as the list of its
  keys, without repetition. \<open>stream\<close> names the temporary file behind an
  \<open>InterfaceStream\<close>.
\<close>

record node =
  nid :: string
  nclass :: nclass
  interfaces :: "iref list"
  graphicalprops :: "(string \<times> pyval) list"
  readyinterfaces :: "iref list"
  canRun :: bool
  running :: bool

text \<open>
  The calls that the claims observe are recorded in a log, newest last: a node's gate
  being set, a node's \<open>run()\<close> starting and ending, a delivery (\<open>onContentReady\<close>) and a
  node being notified of a ready interface (\<open>onInterfaceReady\<close>). The log is an
  observer only: no function of the model reads it.
\<close>

datatype event =
    GateSet nref
  | RunBegin nref
  | RunEnd nref
  | RunFailed nref
  | Delivered iref iref
  | Notified nref iref

record store =
  iheap :: "iref \<Rightarrow> interface"
  nheap :: "nref \<Rightarrow> node"
  inext :: nat
  nnext :: nat
  log :: "event list"

record flow =
  modified :: bool
  filename :: "string option"
  nodes :: "nref list"

definition dict_set :: "'a \<Rightarrow> 'a list \<Rightarrow> 'a list" where
  "dict_set k ks = (if k \<in> set ks then ks else ks @ [k])"

definition upd_iface :: "iref \<Rightarrow> (interface \<Rightarrow> interface) \<Rightarrow> store \<Rightarrow> store" where
  "upd_iface r f s = s\<lparr>iheap := (iheap s)(r := f (iheap s r))\<rparr>"

definition upd_node :: "nref \<Rightarrow> (node \<Rightarrow> node) \<Rightarrow> store \<Rightarrow> store" where
  "upd_node r f s = s\<lparr>nheap := (nheap s)(r := f (nheap s r))\<rparr>"

definition emit :: "event \<Rightarrow> store \<Rightarrow> store" where
  "emit e s = s\<lparr>log := log s @ [e]\<rparr>"

section \<open>Interface\<close>

definition isValue :: "interface \<Rightarrow> bool" where
  "isValue i = (iclass i = InterfaceValue)"

definition isInput :: "interface \<Rightarrow> bool" where
  "isInput i = (itype i = INPUT \<or> itype i = PARAMETER)"

text \<open>\<open>issubclass(c, k)\<close> on the four interface classes.\<close>

definition issubclass :: "iclass \<Rightarrow> iclass \<Rightarrow> bool" where
  "issubclass c k = (c = k \<or> k = Interface)"

definition canConnectTo :: "store \<Rightarrow> iref \<Rightarrow> iref \<Rightarrow> bool" where
  "canConnectTo s self other =
     (if self = other \<or> node (iheap s self) = node (iheap s other) then False
      else list_ex (\<lambda>k. issubclass (iclass (iheap s self)) k \<and> issubclass (iclass (iheap s other)) k)
             [InterfaceStream, InterfaceValue, InterfaceList])"

definition addSuccessor :: "iref \<Rightarrow> iref \<Rightarrow> store \<Rightarrow> error + store" where
  "addSuccessor self interface s =
     (if \<not> canConnectTo s self interface then Inl InvalidConnection
      else Inr (upd_iface interface (\<lambda>i. i\<lparr>predecessors := predecessors i @ [self]\<rparr>)
                 (upd_iface self (\<lambda>i. i\<lparr>successors := successors i @ [interface]\<rparr>) s)))"

text \<open>\<open>list.remove\<close> deletes the first occurrence and raises \<open>ValueError\<close> when there is none.\<close>

definition list_remove :: "'a \<Rightarrow> 'a list \<Rightarrow> error + 'a list" where
  "list_remove x xs = (if x \<in> set xs then Inr (remove1 x xs) else Inl ValueError)"

definition removeSuccessor :: "iref \<Rightarrow> iref \<Rightarrow> store \<Rightarrow> error + store" where
  "removeSuccessor self interface s =
     (case list_remove interface (successors (iheap s self)) of
        Inl e \<Rightarrow> Inl e
      | Inr ss \<Rightarrow>
          (let s1 = upd_iface self (\<lambda>i. i\<lparr>successors := ss\<rparr>) s in
           case list_remove self (predecessors (iheap s1 interface)) of
             Inl e \<Rightarrow> Inl e
           | Inr ps \<Rightarrow> Inr (upd_iface interface (\<lambda>i. i\<lparr>predecessors := ps\<rparr>) s1)))"

text \<open>
  \<open>load\<close>: the base method checks that the two interfaces are connected; \<open>InterfaceValue\<close>
  then copies the value, \<open>InterfaceStream\<close> reopens the other side's file.
\<close>

definition load :: "iref \<Rightarrow> iref \<Rightarrow> store \<Rightarrow> error + store" where
  "load self other s =
     (if other \<notin> set (successors (iheap s self)) \<and> other \<notin> set (predecessors (iheap s self))
      then Inl NotConnected
      else if iclass (iheap s self) = InterfaceValue
      then Inr (upd_iface self (\<lambda>i. i\<lparr>ivalue := ivalue (iheap s other)\<rparr>) s)
      else if iclass (iheap s self) = InterfaceStream
      then Inr (upd_iface self (\<lambda>i. i\<lparr>stream := stream (iheap s other)\<rparr>) s)
      else Inr s)"

section \<open>Node\<close>

definition inputInterfaces :: "store \<Rightarrow> nref \<Rightarrow> iref list" where
  "inputInterfaces s n = filter (\<lambda>i. isInput (iheap s i)) (interfaces (nheap s n))"

definition inputSlotInterfaces :: "store \<Rightarrow> nref \<Rightarrow> iref list" where
  "inputSlotInterfaces s n = filter (\<lambda>i. slot (iheap s i)) (inputInterfaces s n)"

definition outputInterfaces :: "store \<Rightarrow> nref \<Rightarrow> iref list" where
  "outputInterfaces s n = filter (\<lambda>i. \<not> isInput (iheap s i)) (interfaces (nheap s n))"

text \<open>The node-level successors and predecessors: the nodes of the connected interfaces,
  in order of first appearance.\<close>

definition node_successors :: "store \<Rightarrow> nref \<Rightarrow> nref list" where
  "node_successors s n =
     foldl (\<lambda>acc m. if m \<in> set acc then acc else acc @ [m]) []
       (concat (map (\<lambda>i. map (\<lambda>j. node (iheap s j)) (successors (iheap s i)))
                    (interfaces (nheap s n))))"

definition node_predecessors :: "store \<Rightarrow> nref \<Rightarrow> nref list" where
  "node_predecessors s n =
     foldl (\<lambda>acc m. if m \<in> set acc then acc else acc @ [m]) []
       (concat (map (\<lambda>i. map (\<lambda>j. node (iheap s j)) (predecessors (iheap s i)))
                    (interfaces (nheap s n))))"

definition findInterface :: "store \<Rightarrow> nref \<Rightarrow> string \<Rightarrow> error + iref" where
  "findInterface s n nm =
     (case find (\<lambda>i. name (iheap s i) = nm) (interfaces (nheap s n)) of
        None \<Rightarrow> Inl InterfaceNotFound
      | Some i \<Rightarrow> Inr i)"

definition canRun_set :: "nref \<Rightarrow> store \<Rightarrow> store" where
  "canRun_set n s = emit (GateSet n) (upd_node n (\<lambda>x. x\<lparr>canRun := True\<rparr>) s)"

definition onInterfaceReady :: "nref \<Rightarrow> iref \<Rightarrow> store \<Rightarrow> store" where
  "onInterfaceReady self interface s =
     (let s1 = emit (Notified self interface) s;
          s2 = upd_node self (\<lambda>x. x\<lparr>readyinterfaces := dict_set interface (readyinterfaces x)\<rparr>) s1
      in if length (readyinterfaces (nheap s2 self)) \<ge> length (inputSlotInterfaces s2 self)
         then canRun_set self s2 else s2)"

definition onContentReady :: "iref \<Rightarrow> iref \<Rightarrow> store \<Rightarrow> error + store" where
  "onContentReady self interface s =
     (case load self interface s of
        Inl e \<Rightarrow> Inl e
      | Inr s1 \<Rightarrow>
          (let s2 = emit (Delivered interface self)
                      (upd_iface self
                         (\<lambda>i. i\<lparr>readypredecessors := dict_set interface (readypredecessors i)\<rparr>) s1)
           in if length (readypredecessors (iheap s2 self)) \<ge> length (predecessors (iheap s2 self))
              then Inr (onInterfaceReady (node (iheap s2 self)) self s2)
              else Inr s2))"

section \<open>Flow\<close>

definition addConnector :: "flow \<Rightarrow> iref \<Rightarrow> iref \<Rightarrow> store \<Rightarrow> flow \<times> (error + store)" where
  "addConnector f start end s = (f\<lparr>modified := True\<rparr>, addSuccessor start end s)"

definition addNode :: "flow \<Rightarrow> nref \<Rightarrow> flow" where
  "addNode f n = f\<lparr>modified := True, nodes := nodes f @ [n]\<rparr>"

definition removeConnector :: "flow \<Rightarrow> iref \<Rightarrow> iref \<Rightarrow> store \<Rightarrow> flow \<times> (error + store)" where
  "removeConnector f start end s = (f\<lparr>modified := True\<rparr>, removeSuccessor start end s)"

definition removeNode :: "flow \<Rightarrow> nref \<Rightarrow> flow \<times> (error + unit)" where
  "removeNode f n =
     (case list_remove n (nodes f) of
        Inl e \<Rightarrow> (f\<lparr>modified := True\<rparr>, Inl e)
      | Inr ns \<Rightarrow> (f\<lparr>modified := True, nodes := ns\<rparr>, Inr ()))"

section \<open>Construction\<close>

text \<open>\<open>"%s-%s" % (label, i)\<close> prints the counter in decimal.\<close>

definition digit :: "nat \<Rightarrow> char" where
  "digit d = ''0123456789'' ! d"

fun string_of_nat :: "nat \<Rightarrow> string" where
  "string_of_nat n =
     (if n < 10 then [digit n] else string_of_nat (n div 10) @ [digit (n mod 10)])"

declare string_of_nat.simps [simp del]

definition candidate :: "string \<Rightarrow> nat \<Rightarrow> string" where
  "candidate lbl i = lbl @ ''-'' @ string_of_nat i"

lemma digit_inj: "a < 10 \<Longrightarrow> b < 10 \<Longrightarrow> digit a = digit b \<Longrightarrow> a = b"
proof -
  assume a: "a < 10" and b: "b < 10" and e: "digit a = digit b"
  from a have "a \<in> {0,1,2,3,4,5,6,7,8,9}" by auto
  moreover from b have "b \<in> {0,1,2,3,4,5,6,7,8,9}" by auto
  ultimately show ?thesis using e
    by (auto simp: digit_def)
qed

lemma string_of_nat_nonempty: "string_of_nat n \<noteq> []"
  by (subst string_of_nat.simps) simp

lemma string_of_nat_inj: "string_of_nat m = string_of_nat n \<Longrightarrow> m = n"
proof (induction m arbitrary: n rule: string_of_nat.induct)
  case (1 m)
  show ?case
  proof (cases "m < 10")
    case True
    then have m: "string_of_nat m = [digit m]" by (subst string_of_nat.simps) simp
    show ?thesis
    proof (cases "n < 10")
      case True
      then have "string_of_nat n = [digit n]" by (subst string_of_nat.simps) simp
      with m "1.prems" have "digit m = digit n" by simp
      with \<open>m < 10\<close> \<open>n < 10\<close> show ?thesis by (rule digit_inj)
    next
      case False
      then have "string_of_nat n = string_of_nat (n div 10) @ [digit (n mod 10)]"
        by (subst string_of_nat.simps) simp
      with m "1.prems" have "string_of_nat (n div 10) = []" by simp
      then show ?thesis by (simp add: string_of_nat_nonempty)
    qed
  next
    case False
    then have m: "string_of_nat m = string_of_nat (m div 10) @ [digit (m mod 10)]"
      by (subst string_of_nat.simps) simp
    show ?thesis
    proof (cases "n < 10")
      case True
      then have "string_of_nat n = [digit n]" by (subst string_of_nat.simps) simp
      with m "1.prems" have "string_of_nat (m div 10) = []" by simp
      then show ?thesis by (simp add: string_of_nat_nonempty)
    next
      case nf: False
      then have "string_of_nat n = string_of_nat (n div 10) @ [digit (n mod 10)]"
        by (subst string_of_nat.simps) simp
      with m "1.prems" have e: "string_of_nat (m div 10) = string_of_nat (n div 10)"
        and d: "digit (m mod 10) = digit (n mod 10)" by simp_all
      from "1.IH" [OF False e] have q: "m div 10 = n div 10" .
      have "m mod 10 = n mod 10" using d by (intro digit_inj) simp_all
      with q show ?thesis by (metis div_mult_mod_eq)
    qed
  qed
qed

lemma candidate_inj: "inj (candidate lbl)"
  by (rule injI) (simp add: candidate_def string_of_nat_inj)

lemma finite_candidates: "finite {j. candidate lbl j \<in> set ids}"
proof -
  have "finite (candidate lbl -` set ids)"
    by (rule finite_vimageI [OF _ candidate_inj]) simp
  then show ?thesis by (simp add: vimage_def)
qed

text \<open>The loop of \<open>Flow.randomId\<close>: \<open>ids\<close> is \<open>[n.id for n in self.nodes]\<close>.\<close>

function randomId_loop :: "string list \<Rightarrow> string \<Rightarrow> string \<Rightarrow> nat \<Rightarrow> string" where
  "randomId_loop ids lbl ident i =
     (if ident \<in> set ids then randomId_loop ids lbl (candidate lbl i) (i + 1) else ident)"
  by pat_completeness auto
termination
proof (relation "measure (\<lambda>(ids, lbl, ident, i).
          2 * card {j. i \<le> j \<and> candidate lbl j \<in> set ids} + (if ident \<in> set ids then 1 else 0))")
  show "wf (measure (\<lambda>(ids, lbl, ident, i).
          2 * card {j. i \<le> j \<and> candidate lbl j \<in> set ids} + (if ident \<in> set ids then 1 else 0)))"
    by simp
next
  fix ids :: "string list" and lbl ident :: string and i :: nat
  assume mem: "ident \<in> set ids"
  let ?A = "{j. i \<le> j \<and> candidate lbl j \<in> set ids}"
  let ?B = "{j. i + 1 \<le> j \<and> candidate lbl j \<in> set ids}"
  have fA: "finite ?A" by (rule finite_subset [OF _ finite_candidates [of lbl ids]]) auto
  have sub: "?B \<subseteq> ?A" by auto
  show "((ids, lbl, candidate lbl i, i + 1), (ids, lbl, ident, i))
        \<in> measure (\<lambda>(ids, lbl, ident, i).
          2 * card {j. i \<le> j \<and> candidate lbl j \<in> set ids} + (if ident \<in> set ids then 1 else 0))"
  proof (cases "candidate lbl i \<in> set ids")
    case True
    then have "i \<in> ?A" "i \<notin> ?B" by auto
    with sub have "?B \<subset> ?A" by blast
    with fA have "card ?B < card ?A" by (rule psubset_card_mono)
    with mem show ?thesis by simp
  next
    case False
    from fA sub have "card ?B \<le> card ?A" by (rule card_mono)
    with mem False show ?thesis by simp
  qed
qed

declare randomId_loop.simps [simp del]

text \<open>The class attribute \<open>label\<close>.\<close>

fun label :: "nclass \<Rightarrow> string" where
  "label Node = []"
| "label ProcessNode = ''Process''"
| "label InputNode = []"
| "label FileInputNode = ''File''"
| "label ValueInputNode = ''Value''"
| "label CommandLineParameterInputNode = ''CLI Param''"
| "label CommandLineStdinInputNode = ''CLI Stdin''"
| "label FileListInputNode = ''File list''"
| "label OutputNode = []"
| "label FileOutputNode = ''File''"
| "label CommandLineStdoutOutputNode = ''CLI Stdout''"

definition randomId :: "store \<Rightarrow> flow \<Rightarrow> nclass \<Rightarrow> string" where
  "randomId s f c = randomId_loop (map (\<lambda>n. nid (nheap s n)) (nodes f)) (label c) (label c) 2"

definition findNode :: "store \<Rightarrow> flow \<Rightarrow> string \<Rightarrow> error + nref" where
  "findNode s f ident =
     (case find (\<lambda>n. nid (nheap s n) = ident) (nodes f) of
        None \<Rightarrow> Inl NodeNotFound
      | Some n \<Rightarrow> Inr n)"

text \<open>\<open>issubclass(n.__class__, InputNode)\<close>\<close>

fun isInputNode :: "nclass \<Rightarrow> bool" where
  "isInputNode InputNode = True"
| "isInputNode FileInputNode = True"
| "isInputNode ValueInputNode = True"
| "isInputNode CommandLineParameterInputNode = True"
| "isInputNode CommandLineStdinInputNode = True"
| "isInputNode FileListInputNode = True"
| "isInputNode c = False"

definition inputNodes :: "store \<Rightarrow> flow \<Rightarrow> nref list" where
  "inputNodes s f = filter (\<lambda>n. isInputNode (nclass (nheap s n))) (nodes f)"

definition CLIParameterNodes :: "store \<Rightarrow> flow \<Rightarrow> nref list" where
  "CLIParameterNodes s f =
     filter (\<lambda>n. nclass (nheap s n) = CommandLineParameterInputNode) (nodes f)"

text \<open>
  The interfaces that each class's \<open>__init__\<close> creates: class, name, \<open>type\<close>, \<open>slot\<close>
  and \<open>default\<close>, in the order of the assignments. (\<open>Node.interfaces\<close> collects them
  from the instance dictionary on first use; the model fixes the order of creation.)
\<close>

fun declared :: "nclass \<Rightarrow> (iclass \<times> string \<times> itype \<times> bool \<times> pyval) list" where
  "declared ProcessNode =
     [(InterfaceStream, ''stdin'', INPUT, True, PyStr ''EOF''),
      (InterfaceStream, ''stdout'', OUTPUT, True, PyStr ''EOF''),
      (InterfaceStream, ''stderr'', OUTPUT, True, PyStr ''EOF''),
      (InterfaceValue, ''cmd'', PARAMETER, False, PyStr []),
      (InterfaceValue, ''result'', RESULT, True, PyInt 0)]"
| "declared FileInputNode =
     [(InterfaceValue, ''filepath'', PARAMETER, False, PyStr []),
      (InterfaceStream, ''output'', OUTPUT, True, PyStr ''EOF'')]"
| "declared ValueInputNode =
     [(InterfaceValue, ''value'', PARAMETER, False, PyStr []),
      (InterfaceValue, ''out'', OUTPUT, True, PyStr [])]"
| "declared CommandLineParameterInputNode =
     [(InterfaceValue, ''name'', PARAMETER, False, PyStr []),
      (InterfaceValue, ''value'', OUTPUT, True, PyStr []),
      (InterfaceValue, ''default'', PARAMETER, False, PyStr [])]"
| "declared CommandLineStdinInputNode =
     [(InterfaceStream, ''output'', OUTPUT, True, PyStr ''EOF'')]"
| "declared FileOutputNode =
     [(InterfaceValue, ''filepath'', PARAMETER, False, PyStr []),
      (InterfaceStream, ''input'', INPUT, True, PyStr ''EOF'')]"
| "declared CommandLineStdoutOutputNode =
     [(InterfaceStream, ''input'', INPUT, True, PyStr ''EOF'')]"
| "declared c = []"

text \<open>
  \<open>Interface.__init__\<close>. \<open>self.value = kwargs.get('value', self.default)\<close> stores the
  default; \<open>InterfaceValue.__init__\<close> then resets \<open>_value\<close> to \<open>None\<close>, and
  \<open>InterfaceStream.__init__\<close> opens a new temporary file, named here by the interface's
  own reference.
\<close>

definition new_Interface ::
  "nref \<Rightarrow> (iclass \<times> string \<times> itype \<times> bool \<times> pyval) \<Rightarrow> store \<Rightarrow> store" where
  "new_Interface n d s =
     (case d of (c, nm, t, sl, dflt) \<Rightarrow>
        s\<lparr>iheap := (iheap s)(inext s :=
             \<lparr>node = n, name = nm, itype = t, slot = sl, iclass = c,
              ivalue = (if c = InterfaceValue then PyNone else dflt),
              stream = (if c = InterfaceStream then Some (inext s) else None),
              successors = [], predecessors = [], readypredecessors = []\<rparr>),
          inext := inext s + 1\<rparr>)"

text \<open>
  \<open>cls(flow=flow, id=id)\<close>: \<open>Node.__init__\<close> takes the id, or asks the flow for one when
  the id is blank and a flow was given, then the subclass creates its interfaces.
\<close>

definition Node_init :: "nclass \<Rightarrow> flow option \<Rightarrow> string \<Rightarrow> store \<Rightarrow> nref \<times> store" where
  "Node_init c fl ident s =
     (let n = nnext s;
          ident' = (case fl of
                      None \<Rightarrow> ident
                    | Some f \<Rightarrow> if ident = [] then randomId s f c else ident);
          s1 = s\<lparr>nheap := (nheap s)(n :=
                  \<lparr>nid = ident', nclass = c,
                   interfaces = [inext s ..< inext s + length (declared c)],
                   graphicalprops = [], readyinterfaces = [], canRun = False, running = False\<rparr>),
                nnext := n + 1\<rparr>
      in (n, fold (new_Interface n) (declared c) s1))"

definition null_interface :: interface where
  "null_interface =
     \<lparr>node = 0, name = [], itype = PARAMETER, slot = True, iclass = Interface, ivalue = PyNone,
      stream = None, successors = [], predecessors = [], readypredecessors = []\<rparr>"

definition null_node :: node where
  "null_node =
     \<lparr>nid = [], nclass = Node, interfaces = [], graphicalprops = [], readyinterfaces = [],
      canRun = False, running = False\<rparr>"

text \<open>The store before any object exists, and \<open>Flow.__init__\<close>.\<close>

definition empty_store :: store where
  "empty_store =
     \<lparr>iheap = (\<lambda>_. null_interface), nheap = (\<lambda>_. null_node), inext = 0, nnext = 0, log = []\<rparr>"

definition Flow_init :: flow where
  "Flow_init = \<lparr>modified = False, filename = None, nodes = []\<rparr>"

section \<open>Persistence\<close>

text \<open>
  \<open>exportXml\<close> builds a document with \<open>xml.dom.minidom\<close> and prints it;
  \<open>importXml\<close> parses the text and walks the document. The document is modelled as a
  tree of elements with attributes. The text layer of the library (\<open>toprettyxml\<close>,
  \<open>parseString\<close>) is not part of flow.py: a file holds the document itself.
\<close>

datatype xml = Element (tag: string) (attrs: "(string \<times> string) list") (children: "xml list")

text \<open>\<open>getAttribute\<close> answers the empty string for an attribute that is not set.\<close>

definition getAttribute :: "xml \<Rightarrow> string \<Rightarrow> string" where
  "getAttribute e k = (case map_of (attrs e) k of None \<Rightarrow> [] | Some v \<Rightarrow> v)"

fun descendants :: "xml \<Rightarrow> xml list" where
  "descendants (Element t a cs) = concat (map (\<lambda>c. c # descendants c) cs)"

text \<open>\<open>getElementsByTagName\<close> on an element lists the descendants with the tag, in
  document order; on the document it also sees the root element.\<close>

definition getElementsByTagName :: "xml \<Rightarrow> string \<Rightarrow> xml list" where
  "getElementsByTagName e t = filter (\<lambda>x. tag x = t) (descendants e)"

definition doc_getElementsByTagName :: "xml \<Rightarrow> string \<Rightarrow> xml list" where
  "doc_getElementsByTagName root t = filter (\<lambda>x. tag x = t) (root # descendants root)"

text \<open>\<open>__class__.__name__\<close> and the lookup that \<open>eval(classname)\<close> performs for the
  name of a node class (any other type tag is taken as unknown).\<close>

fun classname :: "nclass \<Rightarrow> string" where
  "classname Node = ''Node''"
| "classname ProcessNode = ''ProcessNode''"
| "classname InputNode = ''InputNode''"
| "classname FileInputNode = ''FileInputNode''"
| "classname ValueInputNode = ''ValueInputNode''"
| "classname CommandLineParameterInputNode = ''CommandLineParameterInputNode''"
| "classname CommandLineStdinInputNode = ''CommandLineStdinInputNode''"
| "classname FileListInputNode = ''FileListInputNode''"
| "classname OutputNode = ''OutputNode''"
| "classname FileOutputNode = ''FileOutputNode''"
| "classname CommandLineStdoutOutputNode = ''CommandLineStdoutOutputNode''"

definition all_classes :: "nclass list" where
  "all_classes =
     [Node, ProcessNode, InputNode, FileInputNode, ValueInputNode,
      CommandLineParameterInputNode, CommandLineStdinInputNode, FileListInputNode,
      OutputNode, FileOutputNode, CommandLineStdoutOutputNode]"

definition class_of_name :: "string \<Rightarrow> nclass option" where
  "class_of_name nm = find (\<lambda>c. classname c = nm) all_classes"

text \<open>\<open>"%s" % v\<close> and \<open>unicode(v)\<close>.\<close>

definition string_of_int :: "int \<Rightarrow> string" where
  "string_of_int i = (if i < 0 then ''-'' @ string_of_nat (nat (- i)) else string_of_nat (nat i))"

fun str :: "pyval \<Rightarrow> string" where
  "str PyNone = ''None''"
| "str (PyStr s) = s"
| "str (PyInt i) = string_of_int i"

definition str_of_bool :: "bool \<Rightarrow> string" where
  "str_of_bool b = (if b then ''True'' else ''False'')"

text \<open>\<open>str.lower\<close> on the ASCII letters.\<close>

definition lower_char :: "char \<Rightarrow> char" where
  "lower_char c =
     (let k = (of_char c :: nat) in if 65 \<le> k \<and> k \<le> 90 then char_of (k + 32) else c)"

definition lower :: "string \<Rightarrow> string" where
  "lower s = map lower_char s"

definition export_successor :: "store \<Rightarrow> iref \<Rightarrow> xml" where
  "export_successor s j =
     Element ''successor''
       [(''node'', nid (nheap s (node (iheap s j)))), (''interface'', name (iheap s j))] []"

definition export_interface :: "store \<Rightarrow> iref \<Rightarrow> xml" where
  "export_interface s i =
     Element ''interface''
       ((''name'', name (iheap s i)) #
        (if isInput (iheap s i) \<and> isValue (iheap s i)
         then (''slot'', str_of_bool (slot (iheap s i))) #
              (if \<not> slot (iheap s i)
               then [(''value'', (if ivalue (iheap s i) \<noteq> PyNone then str (ivalue (iheap s i)) else []))]
               else [])
         else []))
       (map (export_successor s) (successors (iheap s i)))"

definition export_graphproperty :: "string \<times> pyval \<Rightarrow> xml" where
  "export_graphproperty p = Element ''graphproperty'' [(''name'', fst p), (''value'', str (snd p))] []"

definition export_node :: "store \<Rightarrow> nref \<Rightarrow> xml" where
  "export_node s n =
     Element ''node'' [(''id'', nid (nheap s n)), (''type'', classname (nclass (nheap s n)))]
       (map export_graphproperty (graphicalprops (nheap s n))
        @ map (export_interface s) (interfaces (nheap s n)))"

definition exportXml :: "store \<Rightarrow> flow \<Rightarrow> xml" where
  "exportXml s f = Element ''flow'' [] (map (export_node s) (nodes f))"

text \<open>
  \<open>importXml\<close>, first pass: a node per \<open>node\<close> element. \<open>atoi\<close> comes from the module
  \<open>utils\<close>, which is not part of the sources; it is a parameter.
\<close>

definition dict_put :: "'k \<Rightarrow> 'v \<Rightarrow> ('k \<times> 'v) list \<Rightarrow> ('k \<times> 'v) list" where
  "dict_put k v d =
     (if k \<in> fst ` set d then map (\<lambda>p. if fst p = k then (k, v) else p) d else d @ [(k, v)])"

definition import_props :: "(string \<Rightarrow> pyval) \<Rightarrow> xml \<Rightarrow> nref \<Rightarrow> store \<Rightarrow> store" where
  "import_props atoi xmlnode n s =
     fold (\<lambda>prop. upd_node n (\<lambda>x. x\<lparr>graphicalprops :=
               dict_put (getAttribute prop ''name'') (atoi (getAttribute prop ''value''))
                 (graphicalprops x)\<rparr>))
       (getElementsByTagName xmlnode ''graphproperty'') s"

fun import_nodes :: "(string \<Rightarrow> pyval) \<Rightarrow> xml list \<Rightarrow> flow \<Rightarrow> store \<Rightarrow> error + flow \<times> store" where
  "import_nodes atoi [] f s = Inr (f, s)"
| "import_nodes atoi (x # xs) f s =
     (case class_of_name (getAttribute x ''type'') of
        None \<Rightarrow> Inl UnknownNodeType
      | Some c \<Rightarrow>
          (case Node_init c (Some f) (getAttribute x ''id'') s of
             (n, s1) \<Rightarrow> import_nodes atoi xs (addNode f n) (import_props atoi x n s1)))"

text \<open>Second pass: the interfaces of each node element, and their successors.\<close>

fun import_successors :: "flow \<Rightarrow> iref \<Rightarrow> xml list \<Rightarrow> store \<Rightarrow> error + store" where
  "import_successors f src [] s = Inr s"
| "import_successors f src (x # xs) s =
     (case findNode s f (getAttribute x ''node'') of
        Inl e \<Rightarrow> Inl e
      | Inr dnode \<Rightarrow>
          (case findInterface s dnode (getAttribute x ''interface'') of
             Inl e \<Rightarrow> Inl e
           | Inr dest \<Rightarrow>
               (case addSuccessor src dest (upd_iface dest (\<lambda>i. i\<lparr>slot := True\<rparr>) s) of
                  Inl e \<Rightarrow> Inl e
                | Inr s' \<Rightarrow> import_successors f src xs s')))"

definition import_interface_attrs :: "xml \<Rightarrow> iref \<Rightarrow> store \<Rightarrow> store" where
  "import_interface_attrs x src s =
     (let s1 = upd_iface src (\<lambda>i. i\<lparr>slot := True\<rparr>) s in
      if isInput (iheap s1 src) \<and> isValue (iheap s1 src)
      then (let s2 = upd_iface src (\<lambda>i. i\<lparr>slot := (lower (getAttribute x ''slot'') = ''true'')\<rparr>) s1 in
            if \<not> slot (iheap s2 src)
            then upd_iface src (\<lambda>i. i\<lparr>ivalue := PyStr (getAttribute x ''value'')\<rparr>) s2
            else s2)
      else s1)"

fun import_interfaces :: "flow \<Rightarrow> nref \<Rightarrow> xml list \<Rightarrow> store \<Rightarrow> error + store" where
  "import_interfaces f n [] s = Inr s"
| "import_interfaces f n (x # xs) s =
     (case findInterface s n (getAttribute x ''name'') of
        Inl e \<Rightarrow> Inl e
      | Inr src \<Rightarrow>
          (case import_successors f src (getElementsByTagName x ''successor'')
                  (import_interface_attrs x src s) of
             Inl e \<Rightarrow> Inl e
           | Inr s' \<Rightarrow> import_interfaces f n xs s'))"

fun import_links :: "flow \<Rightarrow> xml list \<Rightarrow> store \<Rightarrow> error + store" where
  "import_links f [] s = Inr s"
| "import_links f (x # xs) s =
     (case findNode s f (getAttribute x ''id'') of
        Inl e \<Rightarrow> Inl e
      | Inr n \<Rightarrow>
          (case import_interfaces f n (getElementsByTagName x ''interface'') s of
             Inl e \<Rightarrow> Inl e
           | Inr s' \<Rightarrow> import_links f xs s'))"

definition importXml :: "(string \<Rightarrow> pyval) \<Rightarrow> xml \<Rightarrow> store \<Rightarrow> error + flow \<times> store" where
  "importXml atoi doc s =
     (case import_nodes atoi (doc_getElementsByTagName doc ''node'') Flow_init s of
        Inl e \<Rightarrow> Inl e
      | Inr (f, s1) \<Rightarrow>
          (case import_links f (doc_getElementsByTagName doc ''node'') s1 of
             Inl e \<Rightarrow> Inl e
           | Inr s2 \<Rightarrow> Inr (f, s2)))"

text \<open>The files: a name either has no file or holds a document.\<close>

type_synonym files = "string \<Rightarrow> xml option"

text \<open>\<open>Flow.save(filename=None)\<close>: \<open>open(None, 'w')\<close> raises before the flag is touched.\<close>

definition save :: "flow \<Rightarrow> string option \<Rightarrow> store \<Rightarrow> files \<Rightarrow> error + flow \<times> files" where
  "save f fname s fs =
     (case (case fname of None \<Rightarrow> filename f | Some n \<Rightarrow> Some n) of
        None \<Rightarrow> Inl IOError
      | Some n \<Rightarrow> Inr (f\<lparr>modified := False\<rparr>, fs(n \<mapsto> exportXml s f)))"

text \<open>\<open>Flow.load(filename)\<close>\<close>

definition Flow_load :: "(string \<Rightarrow> pyval) \<Rightarrow> string \<Rightarrow> files \<Rightarrow> store \<Rightarrow> error + flow \<times> store" where
  "Flow_load atoi fname fs s =
     (case fs fname of
        None \<Rightarrow> Inl IOError
      | Some content \<Rightarrow>
          (case importXml atoi content s of
             Inl e \<Rightarrow> Inl e
           | Inr (f, s') \<Rightarrow> Inr (f\<lparr>filename := Some fname, modified := False\<rparr>, s')))"

section \<open>Deliveries to one interface\<close>



section \<open>Runner\<close>

text \<open>
  Modelled from the spec: the helper \<open>empty\<close> of the module \<open>utils\<close>, which is not among
  the sources. \<open>Runner.start\<close> calls it under the comment "Start nodes without
  predecessors", \<open>FileInputNode.run\<close> to refuse a missing file path, and the spec's start
  nodes are the nodes that wait for nothing: \<open>empty(x)\<close> holds for a list without elements,
  for \<open>None\<close> and for the empty string.
\<close>

definition empty :: "'a list \<Rightarrow> bool" where
  "empty xs = (xs = [])"

definition empty_value :: "pyval \<Rightarrow> bool" where
  "empty_value v = (v = PyNone \<or> v = PyStr [])"

text \<open>The second loop of \<open>Runner.start\<close>: each input node without predecessors has its gate
  set.\<close>

definition kick :: "nref \<Rightarrow> store \<Rightarrow> store" where
  "kick n s = (if empty (node_predecessors s n) then canRun_set n s else s)"


text \<open>
  What \<open>run()\<close> does is the business of each node class and of the world outside (files,
  processes, the command line). The engine sees two things of it: it returns or it
  raises, and it writes values to interfaces. A body maps the node and the interfaces it
  can read to an exception or to the values it assigns.
\<close>

type_synonym body = "nref \<Rightarrow> (iref \<Rightarrow> interface) \<Rightarrow> error + (iref \<times> pyval) list"

definition set_values :: "(iref \<times> pyval) list \<Rightarrow> store \<Rightarrow> store" where
  "set_values ws s = fold (\<lambda>w. upd_iface (fst w) (\<lambda>x. x\<lparr>ivalue := snd w\<rparr>)) ws s"

text \<open>
  A worker (\<open>NodeRunner\<close>) executes \<open>Node.start\<close> of its node. Its control points: blocked
  in \<open>canRun.wait()\<close>; inside \<open>run()\<close>; in the publishing loops, with the deliveries that
  are still to be made; returned; ended by an exception that nothing caught.
\<close>

datatype pc = Waiting | Running | Publishing "(iref \<times> iref) list" | Finished | Crashed error

text \<open>The deliveries of the loops
  \<^verbatim>\<open>for i in self.outputInterfaces: for interface in i.successors\<close>
  as pairs (\<open>i\<close>, \<open>interface\<close>); connections do not change while a flow runs.\<close>

definition publish_list :: "store \<Rightarrow> nref \<Rightarrow> (iref \<times> iref) list" where
  "publish_list s n =
     concat (map (\<lambda>i. map (\<lambda>j. (i, j)) (successors (iheap s i))) (outputInterfaces s n))"

text \<open>
  One step of a worker; \<open>None\<close> when it cannot move. Each call of \<open>onContentReady\<close> is
  one step: the model does not interleave other workers inside a call.
\<close>

fun thread_step :: "body \<Rightarrow> nref \<Rightarrow> pc \<Rightarrow> store \<Rightarrow> (pc \<times> store) option" where
  "thread_step b n Waiting s =
     (if canRun (nheap s n)
      then Some (Running, emit (RunBegin n) (upd_node n (\<lambda>x. x\<lparr>running := True\<rparr>) s))
      else None)"
| "thread_step b n Running s =
     (case b n (iheap s) of
        Inl e \<Rightarrow> Some (Crashed e, emit (RunFailed n) s)
      | Inr ws \<Rightarrow>
          (let s1 = emit (RunEnd n) (upd_node n (\<lambda>x. x\<lparr>running := False\<rparr>) (set_values ws s));
               s2 = upd_node n (\<lambda>x. x\<lparr>canRun := False\<rparr>) s1
           in Some (Publishing (publish_list s2 n), s2)))"
| "thread_step b n (Publishing []) s = Some (Finished, s)"
| "thread_step b n (Publishing (d # ds)) s =
     (case onContentReady (snd d) (fst d) s of
        Inl e \<Rightarrow> Some (Crashed e, s)
      | Inr s' \<Rightarrow> Some (Publishing ds, s'))"
| "thread_step b n Finished s = None"
| "thread_step b n (Crashed e) s = None"

text \<open>
  The state of \<open>Runner.start\<close>: the store, the control point of the worker of each node
  of \<open>flow.nodes\<close> (in that order), and the input nodes that the second loop has still
  to look at. Workers are created blocked; a worker that does not exist yet and one that
  waits cannot be told apart, since a gate is cleared only by the node's own worker.
\<close>

record rstate =
  heap :: store
  pcs :: "pc list"
  kicks :: "nref list"

definition Runner_start :: "flow \<Rightarrow> store \<Rightarrow> rstate" where
  "Runner_start f s =
     \<lparr>heap = s, pcs = replicate (length (nodes f)) Waiting, kicks = inputNodes s f\<rparr>"

text \<open>Who moves next: the scheduler's second loop, or the worker of the \<open>k\<close>-th node.\<close>

datatype choice = Kick | Thread nat

definition fire :: "body \<Rightarrow> flow \<Rightarrow> choice \<Rightarrow> rstate \<Rightarrow> rstate option" where
  "fire b f c \<sigma> =
     (case c of
        Kick \<Rightarrow>
          (case kicks \<sigma> of
             [] \<Rightarrow> None
           | n # ns \<Rightarrow> Some (\<sigma>\<lparr>heap := kick n (heap \<sigma>), kicks := ns\<rparr>))
      | Thread k \<Rightarrow>
          (if k < length (pcs \<sigma>) \<and> k < length (nodes f)
           then (case thread_step b (nodes f ! k) (pcs \<sigma> ! k) (heap \<sigma>) of
                   None \<Rightarrow> None
                 | Some r \<Rightarrow> Some (\<sigma>\<lparr>heap := snd r, pcs := (pcs \<sigma>)[k := fst r]\<rparr>))
           else None))"

text \<open>An execution follows a schedule, a list of choices; \<open>None\<close> when the schedule picks
  somebody who cannot move.\<close>

fun run_schedule :: "body \<Rightarrow> flow \<Rightarrow> choice list \<Rightarrow> rstate \<Rightarrow> rstate option" where
  "run_schedule b f [] \<sigma> = Some \<sigma>"
| "run_schedule b f (c # cs) \<sigma> =
     (case fire b f c \<sigma> of
        None \<Rightarrow> None
      | Some \<sigma>' \<Rightarrow> run_schedule b f cs \<sigma>')"

text \<open>Nobody can move: the second loop is through and every worker is blocked or has
  ended.\<close>

definition quiescent :: "body \<Rightarrow> flow \<Rightarrow> rstate \<Rightarrow> bool" where
  "quiescent b f \<sigma> =
     (fire b f Kick \<sigma> = None
      \<and> list_all (\<lambda>k. fire b f (Thread k) \<sigma> = None) [0 ..< length (pcs \<sigma>)])"

text \<open>\<open>Runner.start\<close> returns when the second loop is through and every \<open>join\<close> has
  returned: every worker has ended, by returning or by an exception.\<close>

fun ended :: "pc \<Rightarrow> bool" where
  "ended Finished = True"
| "ended (Crashed e) = True"
| "ended p = False"

definition returned :: "rstate \<Rightarrow> bool" where
  "returned \<sigma> = (kicks \<sigma> = [] \<and> list_all ended (pcs \<sigma>))"

text \<open>\<open>a\<close> is in the log before the first \<open>b\<close>.\<close>

definition happens_before :: "event \<Rightarrow> event \<Rightarrow> event list \<Rightarrow> bool" where
  "happens_before a b l = (a \<in> set (takeWhile (\<lambda>x. x \<noteq> b) l))"

section \<open>Notions for the executions of a flow\<close>

text \<open>Two stores hold the same graph: the same connections, directions, slot flags and
  owners of all interfaces, and the same class and interfaces of all nodes. (Running a
  flow changes values, gates and readiness records only.)\<close>

definition same_graph :: "store \<Rightarrow> store \<Rightarrow> bool" where
  "same_graph s s' =
     ((\<forall>i. node (iheap s' i) = node (iheap s i) \<and> itype (iheap s' i) = itype (iheap s i)
          \<and> slot (iheap s' i) = slot (iheap s i)
          \<and> successors (iheap s' i) = successors (iheap s i)
          \<and> predecessors (iheap s' i) = predecessors (iheap s i))
      \<and> (\<forall>n. nclass (nheap s' n) = nclass (nheap s n)
             \<and> interfaces (nheap s' n) = interfaces (nheap s n)))"

text \<open>
  The situation of the readiness-propagation property, in a store \<open>s\<close> that is about to
  run: \<open>N1\<close> and \<open>N2\<close> are different nodes of a flow that holds no node twice; \<open>N1\<close> is
  an input node without predecessors; \<open>N1\<close> publishes its output \<open>out\<close> to the interface
  \<open>inp\<close> of \<open>N2\<close>, whose only predecessor is \<open>out\<close>; no other delivery of the flow goes
  to an interface of \<open>N2\<close>; the scheduler does not signal \<open>N2\<close>, and \<open>N2\<close> has at most
  one input-slot interface; everything \<open>N1\<close> publishes goes to an interface it is
  connected with; the log is empty and the gate of \<open>N2\<close> is clear.
\<close>

definition simple_link :: "flow \<Rightarrow> store \<Rightarrow> nref \<Rightarrow> iref \<Rightarrow> iref \<Rightarrow> nref \<Rightarrow> bool" where
  "simple_link f s N1 out inp N2 =
     (distinct (nodes f) \<and> N1 \<in> set (nodes f) \<and> N2 \<in> set (nodes f) \<and> N1 \<noteq> N2
      \<and> isInputNode (nclass (nheap s N1)) \<and> node_predecessors s N1 = []
      \<and> (out, inp) \<in> set (publish_list s N1)
      \<and> node (iheap s inp) = N2 \<and> predecessors (iheap s inp) = [out]
      \<and> list_all (\<lambda>n. list_all (\<lambda>d. node (iheap s (snd d)) = N2 \<longrightarrow> d = (out, inp) \<and> n = N1)
                         (publish_list s n)) (nodes f)
      \<and> \<not> (isInputNode (nclass (nheap s N2)) \<and> node_predecessors s N2 = [])
      \<and> length (inputSlotInterfaces s N2) \<le> 1
      \<and> list_all (\<lambda>d. fst d \<in> set (successors (iheap s (snd d)))
                      \<or> fst d \<in> set (predecessors (iheap s (snd d)))) (publish_list s N1)
      \<and> log s = [] \<and> \<not> canRun (nheap s N2))"


text \<open>
  What holds in every state of an execution that starts in the situation
  \<open>simple_link\<close>, \<open>k1\<close> and \<open>k2\<close> being the positions of \<open>N1\<close> and \<open>N2\<close> in the flow.
  The shape of the state:
\<close>

definition shape_inv :: "flow \<Rightarrow> store \<Rightarrow> rstate \<Rightarrow> bool" where
  "shape_inv f s0 \<sigma> =
     (same_graph s0 (heap \<sigma>) \<and> length (pcs \<sigma>) = length (nodes f)
      \<and> set (kicks \<sigma>) \<subseteq> set (inputNodes s0 f)
      \<and> (\<forall>k ds. k < length (nodes f) \<and> pcs \<sigma> ! k = Publishing ds
            \<longrightarrow> set ds \<subseteq> set (publish_list s0 (nodes f ! k))))"

text \<open>The causal chain behind the gate of \<open>N2\<close>, and the order of the events once
  \<open>N2\<close> has begun to run:\<close>

definition order_inv :: "nref \<Rightarrow> iref \<Rightarrow> iref \<Rightarrow> nref \<Rightarrow> nat \<Rightarrow> nat \<Rightarrow> rstate \<Rightarrow> bool" where
  "order_inv N1 out inp N2 k1 k2 \<sigma> =
     (((pcs \<sigma> ! k2 = Waiting) = (RunBegin N2 \<notin> set (log (heap \<sigma>))))
      \<and> count_list (log (heap \<sigma>)) (RunBegin N2) \<le> 1
      \<and> (canRun (nheap (heap \<sigma>) N2) \<longrightarrow> GateSet N2 \<in> set (log (heap \<sigma>)))
      \<and> (GateSet N2 \<in> set (log (heap \<sigma>)) \<longrightarrow> Delivered out inp \<in> set (log (heap \<sigma>)))
      \<and> (Delivered out inp \<in> set (log (heap \<sigma>)) \<longrightarrow> RunEnd N1 \<in> set (log (heap \<sigma>)))
      \<and> ((\<exists>ds. pcs \<sigma> ! k1 = Publishing ds) \<longrightarrow> RunEnd N1 \<in> set (log (heap \<sigma>)))
      \<and> (RunBegin N2 \<in> set (log (heap \<sigma>)) \<longrightarrow>
            happens_before (GateSet N2) (RunBegin N2) (log (heap \<sigma>))
            \<and> happens_before (Delivered out inp) (RunBegin N2) (log (heap \<sigma>))
            \<and> happens_before (RunEnd N1) (RunBegin N2) (log (heap \<sigma>))))"





section \<open>Example flows\<close>

text \<open>\<open>a = ValueInputNode(id='a')\<close> and \<open>b = ProcessNode(id='b')\<close>, created in this order:
  node 0 owns the interfaces 0 (\<open>value\<close>) and 1 (\<open>out\<close>), node 1 owns 2 (\<open>stdin\<close>),
  3 (\<open>stdout\<close>), 4 (\<open>stderr\<close>), 5 (\<open>cmd\<close>) and 6 (\<open>result\<close>).\<close>

definition two_nodes :: store where
  "two_nodes =
     snd (Node_init ProcessNode None ''b'' (snd (Node_init ValueInputNode None ''a'' empty_store)))"

text \<open>Two plain nodes created with the same id, \<open>Node(id='foo')\<close> twice.\<close>

definition foo_twice :: store where
  "foo_twice = snd (Node_init Node None ''foo'' (snd (Node_init Node None ''foo'' empty_store)))"

text \<open>A single \<open>ValueInputNode(id='a')\<close>: node 0 with the interfaces 0 (\<open>value\<close>) and
  1 (\<open>out\<close>).\<close>

definition one_node :: store where
  "one_node = snd (Node_init ValueInputNode None ''a'' empty_store)"

text \<open>The store after a connection that succeeds; a refused connection leaves it as it is.\<close>

definition connected :: "iref \<Rightarrow> iref \<Rightarrow> store \<Rightarrow> store" where
  "connected a b s = (case addSuccessor a b s of Inl e \<Rightarrow> s | Inr s' \<Rightarrow> s')"







text \<open>A pipeline: \<open>src = FileInputNode(id='src')\<close> (node 0, interfaces 0 \<open>filepath\<close> and
  1 \<open>output\<close>) and \<open>dst = FileOutputNode(id='dst')\<close> (node 1, interfaces 2 \<open>filepath\<close>
  and 3 \<open>input\<close>), with \<open>src.output\<close> connected to \<open>dst.input\<close>, both added to a
  flow.\<close>

definition pipeline :: store where
  "pipeline = connected (Suc 0) 3
     (snd (Node_init FileOutputNode None ''dst''
        (snd (Node_init FileInputNode None ''src'' empty_store))))"

definition pipeline_flow :: flow where
  "pipeline_flow = addNode (addNode Flow_init 0) (Suc 0)"




definition failing_body :: body where
  "failing_body n h = (if n = 0 then Inl RunFault else Inr [])"

text \<open>The pipeline, run with \<open>failing_body\<close>, at the moment when the worker of the
  FileInputNode is inside \<open>run()\<close>: after the scheduler's signal and the wake-up.\<close>

definition in_run :: rstate where
  "in_run =
     (case run_schedule failing_body pipeline_flow [Kick, Thread 0]
             (Runner_start pipeline_flow pipeline) of
        None \<Rightarrow> Runner_start pipeline_flow pipeline
      | Some \<sigma> \<Rightarrow> \<sigma>)"

section \<open>Basic facts about the store\<close>

lemma upd_iface_simps [simp]:
  "iheap (upd_iface r f s) = (iheap s)(r := f (iheap s r))"
  "nheap (upd_iface r f s) = nheap s"
  "inext (upd_iface r f s) = inext s"
  "nnext (upd_iface r f s) = nnext s"
  "log (upd_iface r f s) = log s"
  by (simp_all add: upd_iface_def)

lemma upd_node_simps [simp]:
  "iheap (upd_node r f s) = iheap s"
  "nheap (upd_node r f s) = (nheap s)(r := f (nheap s r))"
  "inext (upd_node r f s) = inext s"
  "nnext (upd_node r f s) = nnext s"
  "log (upd_node r f s) = log s"
  by (simp_all add: upd_node_def)

lemma emit_simps [simp]:
  "iheap (emit e s) = iheap s"
  "nheap (emit e s) = nheap s"
  "inext (emit e s) = inext s"
  "nnext (emit e s) = nnext s"
  "log (emit e s) = log s @ [e]"
  by (simp_all add: emit_def)

lemma two_nodes_eval:
  "iheap two_nodes 0 = \<lparr>node = 0, name = ''value'', itype = PARAMETER, slot = False,
      iclass = InterfaceValue, ivalue = PyNone, stream = None, successors = [],
      predecessors = [], readypredecessors = []\<rparr>"
  "iheap two_nodes (Suc 0) = \<lparr>node = 0, name = ''out'', itype = OUTPUT, slot = True,
      iclass = InterfaceValue, ivalue = PyNone, stream = None, successors = [],
      predecessors = [], readypredecessors = []\<rparr>"
  "iheap two_nodes 5 = \<lparr>node = 1, name = ''cmd'', itype = PARAMETER, slot = False,
      iclass = InterfaceValue, ivalue = PyNone, stream = None, successors = [],
      predecessors = [], readypredecessors = []\<rparr>"
  by (simp_all add: two_nodes_def Node_init_def new_Interface_def empty_store_def)

section \<open>Connecting interfaces\<close>

text \<open>
  Claim C3. The claim: \<open>connect(source, target)\<close> fails with \<open>InvalidConnection\<close>
  whenever the source is an Input or Parameter interface or the target is an Output or
  Result interface, in particular for two input-like interfaces of different nodes with
  the same payload kind. \<open>canConnectTo\<close> never reads \<open>type\<close>: in \<open>two_nodes\<close> the
  parameter \<open>value\<close> of the ValueInputNode (interface 0) and the parameter \<open>cmd\<close> of the
  ProcessNode (interface 5) are both input-like \<open>InterfaceValue\<close>s of different nodes,
  and \<open>addSuccessor\<close> connects them.
\<close>

theorem input_to_input_connects:
  "isInput (iheap two_nodes 0) \<and> isInput (iheap two_nodes 5)
   \<and> node (iheap two_nodes 0) \<noteq> node (iheap two_nodes 5)
   \<and> iclass (iheap two_nodes 0) = iclass (iheap two_nodes 5)
   \<and> (\<exists>s'. addSuccessor 0 5 two_nodes = Inr s'
         \<and> successors (iheap s' 0) = [5] \<and> predecessors (iheap s' 5) = [0])"
  by (simp add: two_nodes_eval isInput_def addSuccessor_def canConnectTo_def issubclass_def)

text \<open>
  Claim C4. For an output-like interface \<open>a\<close> and an input-like interface \<open>b\<close> of
  different nodes, of the same payload class (Value, Stream or List), \<open>addSuccessor\<close>
  and \<open>Flow.addConnector\<close> succeed, and afterwards \<open>b\<close> is among the successors of \<open>a\<close>
  and \<open>a\<close> among the predecessors of \<open>b\<close>.
\<close>

theorem connect_succeeds:
  assumes "\<not> isInput (iheap s a)" and "isInput (iheap s b)"
    and "node (iheap s a) \<noteq> node (iheap s b)"
    and "iclass (iheap s a) = iclass (iheap s b)" and "iclass (iheap s a) \<noteq> Interface"
  shows "\<exists>s'. addSuccessor a b s = Inr s'
           \<and> addConnector f a b s = (f\<lparr>modified := True\<rparr>, Inr s')
           \<and> b \<in> set (successors (iheap s' a)) \<and> a \<in> set (predecessors (iheap s' b))"
proof -
  from assms(3) have ne: "a \<noteq> b" by auto
  have "canConnectTo s a b"
    using assms(3,4,5) ne
    by (cases "iclass (iheap s b)") (simp_all add: canConnectTo_def issubclass_def)
  then show ?thesis using ne
    by (simp add: addSuccessor_def addConnector_def)
qed

theorem connect_succeeds_witness:
  "\<exists>s'. addSuccessor (Suc 0) 5 two_nodes = Inr s'
       \<and> addConnector Flow_init (Suc 0) 5 two_nodes = (Flow_init\<lparr>modified := True\<rparr>, Inr s')
       \<and> 5 \<in> set (successors (iheap s' (Suc 0))) \<and> Suc 0 \<in> set (predecessors (iheap s' 5))"
  using connect_succeeds [of two_nodes "Suc 0" 5 Flow_init]
  by (simp add: two_nodes_eval isInput_def)

text \<open>
  Claim C5. The claim: after a successful \<open>connect\<close> the target's slot flag is true,
  whatever it was before. Neither \<open>addSuccessor\<close> nor \<open>Flow.addConnector\<close> writes
  \<open>slot\<close> (only \<open>importXml\<close> sets \<open>dest.slot = True\<close> before it connects): connecting
  \<open>out\<close> of the ValueInputNode (interface 1) to \<open>cmd\<close> of the ProcessNode (interface 5,
  created with \<open>slot=False\<close>) succeeds and leaves the flag false.
\<close>

theorem connect_leaves_slot:
  "\<not> slot (iheap two_nodes 5)
   \<and> (\<exists>s'. addConnector Flow_init (Suc 0) 5 two_nodes = (Flow_init\<lparr>modified := True\<rparr>, Inr s')
         \<and> \<not> slot (iheap s' 5))"
  by (simp add: two_nodes_eval addConnector_def addSuccessor_def canConnectTo_def issubclass_def)

section \<open>Adding nodes\<close>

text \<open>
  Claim C7. The claim: \<open>addNode\<close> fails with \<open>DuplicateNodeId\<close> for a non-blank id that
  a registered node already has. \<open>Flow.addNode\<close> has no check and no failure: after
  \<open>addNode(Node(id='foo'))\<close> twice the flow holds both nodes, with the same id.
\<close>

theorem addNode_accepts_duplicate_id:
  "nodes (addNode (addNode Flow_init 0) (Suc 0)) = [0, Suc 0]
   \<and> nid (nheap foo_twice 0) = ''foo'' \<and> nid (nheap foo_twice (Suc 0)) = ''foo''"
  by (simp add: addNode_def Flow_init_def foo_twice_def Node_init_def empty_store_def)

section \<open>The modification flag\<close>

lemma import_nodes_modified:
  "import_nodes atoi xs f s = Inr (f', s') \<Longrightarrow> modified f' = (modified f \<or> xs \<noteq> [])"
proof (induction xs arbitrary: f s)
  case Nil
  then show ?case by simp
next
  case (Cons x xs)
  then show ?case
    by (auto simp: addNode_def split: option.splits prod.splits)
qed

lemma import_nodes_length:
  "import_nodes atoi xs f s = Inr (f', s') \<Longrightarrow> length (nodes f') = length (nodes f) + length xs"
proof (induction xs arbitrary: f s)
  case Nil
  then show ?case by simp
next
  case (Cons x xs)
  then show ?case
    by (fastforce simp: addNode_def split: option.splits prod.splits)
qed

lemma importXml_modified:
  assumes "importXml atoi doc s = Inr (f', s')"
  shows "modified f' = (nodes f' \<noteq> [])"
proof -
  from assms obtain s1
    where n: "import_nodes atoi (doc_getElementsByTagName doc ''node'') Flow_init s = Inr (f', s1)"
    by (auto simp: importXml_def split: sum.splits)
  from import_nodes_modified [OF n] import_nodes_length [OF n]
  show ?thesis by (auto simp: Flow_init_def)
qed

lemmas persistence_eval =
  Flow_load_def save_def exportXml_def export_node_def export_interface_def
  export_successor_def export_graphproperty_def str_of_bool_def isInput_def isValue_def
  importXml_def doc_getElementsByTagName_def getElementsByTagName_def getAttribute_def
  class_of_name_def all_classes_def import_props_def findNode_def findInterface_def
  import_interface_attrs_def lower_def lower_char_def randomId_def
  Node_init_def new_Interface_def empty_store_def addNode_def Flow_init_def

text \<open>
  Claim C10. The four graph mutations of a Flow (\<open>addConnector\<close>, \<open>addNode\<close>,
  \<open>removeConnector\<close>, \<open>removeNode\<close>) leave the flag \<open>modified\<close> true, also when the
  call raises (the flag is written first); a \<open>save\<close> that returns and a \<open>load\<close> that
  returns leave it false. The other methods of Flow (\<open>randomId\<close>, \<open>findNode\<close>,
  \<open>inputNodes\<close>, \<open>CLIParameterNodes\<close>, \<open>exportXml\<close>) and the methods of Interface, Node
  and Runner never assign the flag: in the model they return no flow. \<open>importXml\<close>
  builds its own new flow and reaches the flag only through \<open>addNode\<close>, so the flow it
  returns is flagged exactly when it holds a node.
\<close>

theorem modified_flag:
  "modified (fst (addConnector f a b s)) \<and> modified (addNode f n)
   \<and> modified (fst (removeConnector f a b s)) \<and> modified (fst (removeNode f n))
   \<and> (\<forall>f' fs'. save f fname s fs = Inr (f', fs') \<longrightarrow> \<not> modified f')
   \<and> (\<forall>f' s'. Flow_load atoi fname' fs s = Inr (f', s') \<longrightarrow> \<not> modified f')
   \<and> (\<forall>f' s'. importXml atoi doc s = Inr (f', s') \<longrightarrow> modified f' = (nodes f' \<noteq> []))"
  by (auto simp: addConnector_def addNode_def removeConnector_def removeNode_def save_def
      Flow_load_def importXml_modified split: sum.splits option.splits)

theorem modified_flag_witness:
  "(\<exists>f' fs'. save (addNode Flow_init 0) (Some ''x'') one_node Map.empty = Inr (f', fs')
       \<and> \<not> modified f')
   \<and> (\<exists>g s'. Flow_load (\<lambda>_. PyNone) ''x''
                [''x'' \<mapsto> exportXml one_node (addNode Flow_init 0)] one_node = Inr (g, s')
       \<and> \<not> modified g)
   \<and> (\<exists>g s'. importXml (\<lambda>_. PyNone) (exportXml one_node (addNode Flow_init 0)) one_node
                = Inr (g, s') \<and> modified g)"
  using modified_flag [of "addNode Flow_init 0" 0 0 one_node 0 "Some ''x''" Map.empty
      "\<lambda>_. PyNone" "''x''" "exportXml one_node (addNode Flow_init 0)"]
  by (simp add: persistence_eval one_node_def)

section \<open>Readiness counting\<close>

lemma onInterfaceReady_iheap [simp]: "iheap (onInterfaceReady n i s) = iheap s"
  by (simp add: onInterfaceReady_def canRun_set_def Let_def)










section \<open>What the scheduler signals\<close>

lemma canRun_set_simps [simp]:
  "iheap (canRun_set n s) = iheap s"
  "nheap (canRun_set n s) = (nheap s)(n := (nheap s n)\<lparr>canRun := True\<rparr>)"
  "log (canRun_set n s) = log s @ [GateSet n]"
  by (simp_all add: canRun_set_def)

lemma node_predecessors_cong:
  "iheap s' = iheap s \<Longrightarrow> interfaces (nheap s' n) = interfaces (nheap s n)
   \<Longrightarrow> node_predecessors s' n = node_predecessors s n"
  by (simp add: node_predecessors_def)

lemma kick_simps:
  "iheap (kick m s) = iheap s"
  "interfaces (nheap (kick m s) n) = interfaces (nheap s n)"
  "nclass (nheap (kick m s) n) = nclass (nheap s n)"
  "canRun (nheap (kick m s) n) = (canRun (nheap s n) \<or> (n = m \<and> node_predecessors s m = []))"
  "log (kick m s) = log s @ (if node_predecessors s m = [] then [GateSet m] else [])"
  by (auto simp: kick_def empty_def)

lemma kick_node_predecessors [simp]: "node_predecessors (kick m s) n = node_predecessors s n"
  by (rule node_predecessors_cong) (simp_all add: kick_simps)






section \<open>Executions\<close>

lemma same_graph_refl [simp]: "same_graph s s"
  by (simp add: same_graph_def)

lemma same_graph_trans: "same_graph s s' \<Longrightarrow> same_graph s' s'' \<Longrightarrow> same_graph s s''"
  by (simp add: same_graph_def)

lemma same_graph_funs:
  assumes "same_graph s s'"
  shows "outputInterfaces s' n = outputInterfaces s n"
    and "inputSlotInterfaces s' n = inputSlotInterfaces s n"
    and "publish_list s' n = publish_list s n"
    and "node_predecessors s' n = node_predecessors s n"
    and "inputNodes s' f = inputNodes s f"
  using assms
  by (simp_all add: same_graph_def outputInterfaces_def inputSlotInterfaces_def
      inputInterfaces_def publish_list_def node_predecessors_def inputNodes_def isInput_def)

lemma same_graph_upd_node:
  assumes "\<And>x. nclass (g x) = nclass x" and "\<And>x. interfaces (g x) = interfaces x"
  shows "same_graph s (upd_node n g s)"
  using assms by (simp add: same_graph_def)

lemma same_graph_emit [simp]: "same_graph s (emit e s)"
  by (simp add: same_graph_def)

lemma same_graph_set_values: "same_graph s (set_values ws s)"
proof (induction ws arbitrary: s)
  case Nil
  then show ?case by (simp add: set_values_def)
next
  case (Cons w ws)
  have "same_graph s (upd_iface (fst w) (\<lambda>x. x\<lparr>ivalue := snd w\<rparr>) s)"
    by (simp add: same_graph_def)
  moreover have "same_graph (upd_iface (fst w) (\<lambda>x. x\<lparr>ivalue := snd w\<rparr>) s)
      (set_values ws (upd_iface (fst w) (\<lambda>x. x\<lparr>ivalue := snd w\<rparr>) s))"
    by (rule Cons.IH)
  ultimately show ?case
    by (simp add: set_values_def same_graph_trans)
qed

lemma set_values_frame [simp]:
  "nheap (set_values ws s) = nheap s" "log (set_values ws s) = log s"
  by (induction ws arbitrary: s) (simp_all add: set_values_def)

lemma inputSlotInterfaces_cong:
  "iheap s' = iheap s \<Longrightarrow> interfaces (nheap s' n) = interfaces (nheap s n)
   \<Longrightarrow> inputSlotInterfaces s' n = inputSlotInterfaces s n"
  by (simp add: inputSlotInterfaces_def inputInterfaces_def)

lemma onInterfaceReady_effect:
  "\<exists>evs. log (onInterfaceReady n i s) = log s @ Notified n i # evs \<and> set evs \<subseteq> {GateSet n}
     \<and> (\<forall>m. canRun (nheap (onInterfaceReady n i s) m)
            = (canRun (nheap s m) \<or> (m = n \<and> GateSet n \<in> set evs)))
     \<and> (GateSet n \<in> set evs
          \<longleftrightarrow> length (inputSlotInterfaces s n) \<le> length (dict_set i (readyinterfaces (nheap s n))))
     \<and> same_graph s (onInterfaceReady n i s)"
proof -
  let ?s2 = "upd_node n (\<lambda>x. x\<lparr>readyinterfaces := dict_set i (readyinterfaces x)\<rparr>)
               (emit (Notified n i) s)"
  have sl: "inputSlotInterfaces ?s2 n = inputSlotInterfaces s n"
    by (rule inputSlotInterfaces_cong) simp_all
  have sg: "same_graph s ?s2" by (simp add: same_graph_def)
  show ?thesis
  proof (cases "length (inputSlotInterfaces s n) \<le> length (dict_set i (readyinterfaces (nheap s n)))")
    case True
    then have e: "onInterfaceReady n i s = canRun_set n ?s2"
      by (simp add: onInterfaceReady_def Let_def sl)
    show ?thesis
      by (rule exI [of _ "[GateSet n]"]) (simp add: e True same_graph_def)
  next
    case False
    then have e: "onInterfaceReady n i s = ?s2"
      by (simp add: onInterfaceReady_def Let_def sl)
    show ?thesis
      by (rule exI [of _ "[]"]) (simp add: e False same_graph_def)
  qed
qed

lemma load_effect:
  assumes "load c a s = Inr s1"
  shows "nheap s1 = nheap s \<and> log s1 = log s \<and> same_graph s s1
         \<and> readypredecessors (iheap s1 c) = readypredecessors (iheap s c)"
  using assms by (auto simp: load_def same_graph_def split: if_splits)

lemma onContentReady_effect:
  assumes "onContentReady c a s = Inr s'"
  shows "\<exists>evs. log s' = log s @ Delivered a c # evs
     \<and> set evs \<subseteq> {Notified (node (iheap s c)) c, GateSet (node (iheap s c))}
     \<and> (\<forall>m. canRun (nheap s' m)
            = (canRun (nheap s m) \<or> (m = node (iheap s c) \<and> GateSet m \<in> set evs)))
     \<and> same_graph s s'"
proof -
  from assms obtain s1 where l: "load c a s = Inr s1"
    by (auto simp: onContentReady_def split: sum.splits)
  from load_effect [OF l] have s1: "nheap s1 = nheap s" "log s1 = log s" "same_graph s s1"
    by simp_all
  let ?s2 = "emit (Delivered a c)
               (upd_iface c (\<lambda>i. i\<lparr>readypredecessors := dict_set a (readypredecessors i)\<rparr>) s1)"
  have sg2: "same_graph s ?s2" using s1(3) by (simp add: same_graph_def)
  have nd: "node (iheap s1 c) = node (iheap s c)" using s1(3) by (simp add: same_graph_def)
  show ?thesis
  proof (cases "length (readypredecessors (iheap ?s2 c)) \<ge> length (predecessors (iheap ?s2 c))")
    case True
    with assms l have e: "s' = onInterfaceReady (node (iheap s c)) c ?s2"
      by (simp add: onContentReady_def Let_def nd)
    from onInterfaceReady_effect [of "node (iheap s c)" c ?s2] obtain evs where
      ev: "log (onInterfaceReady (node (iheap s c)) c ?s2)
             = log ?s2 @ Notified (node (iheap s c)) c # evs"
      "set evs \<subseteq> {GateSet (node (iheap s c))}"
      "\<forall>m. canRun (nheap (onInterfaceReady (node (iheap s c)) c ?s2) m)
            = (canRun (nheap ?s2 m) \<or> (m = node (iheap s c) \<and> GateSet (node (iheap s c)) \<in> set evs))"
      "same_graph ?s2 (onInterfaceReady (node (iheap s c)) c ?s2)"
      by blast
    show ?thesis
      apply (rule exI [of _ "Notified (node (iheap s c)) c # evs"])
      using ev sg2 s1 by (auto simp: e intro: same_graph_trans)
  next
    case False
    with assms l have e: "s' = ?s2"
      by (simp add: onContentReady_def Let_def)
    show ?thesis
      by (rule exI [of _ "[]"]) (use sg2 s1 in \<open>simp add: e\<close>)
  qed
qed


lemma dict_set_nonempty [simp]: "Suc 0 \<le> length (dict_set k ks)"
  by (cases ks) (simp_all add: dict_set_def)


lemma run_schedule_snoc:
  "run_schedule b f (cs @ [c]) \<sigma>
     = (case run_schedule b f cs \<sigma> of None \<Rightarrow> None | Some \<sigma>' \<Rightarrow> fire b f c \<sigma>')"
  by (induction cs arbitrary: \<sigma>) (auto split: option.splits)

lemma reach_induct [consumes 1, case_names init step]:
  assumes "run_schedule b f cs \<sigma>0 = Some \<sigma>"
    and "P \<sigma>0"
    and "\<And>cs \<sigma> c \<sigma>'. run_schedule b f cs \<sigma>0 = Some \<sigma> \<Longrightarrow> P \<sigma>
           \<Longrightarrow> fire b f c \<sigma> = Some \<sigma>' \<Longrightarrow> P \<sigma>'"
  shows "P \<sigma>"
  using assms(1)
proof (induction cs arbitrary: \<sigma> rule: rev_induct)
  case Nil
  then show ?case using assms(2) by simp
next
  case (snoc c cs)
  from snoc.prems obtain \<sigma>1 where r: "run_schedule b f cs \<sigma>0 = Some \<sigma>1"
    and fi: "fire b f c \<sigma>1 = Some \<sigma>"
    by (auto simp: run_schedule_snoc split: option.splits)
  from assms(3) [OF r snoc.IH [OF r] fi] show ?case .
qed

lemma fire_cases [consumes 1, case_names kick wake fault ran finish lost deliver]:
  assumes "fire b f c \<sigma> = Some \<sigma>'"
  obtains
    (kick) n ns where "c = Kick" "kicks \<sigma> = n # ns"
      "\<sigma>' = \<sigma>\<lparr>heap := kick n (heap \<sigma>), kicks := ns\<rparr>"
  | (wake) k where "c = Thread k" "k < length (pcs \<sigma>)" "k < length (nodes f)"
      "pcs \<sigma> ! k = Waiting" "canRun (nheap (heap \<sigma>) (nodes f ! k))"
      "\<sigma>' = \<sigma>\<lparr>heap := emit (RunBegin (nodes f ! k))
                          (upd_node (nodes f ! k) (\<lambda>x. x\<lparr>running := True\<rparr>) (heap \<sigma>)),
               pcs := (pcs \<sigma>)[k := Running]\<rparr>"
  | (fault) k e where "c = Thread k" "k < length (pcs \<sigma>)" "k < length (nodes f)"
      "pcs \<sigma> ! k = Running" "b (nodes f ! k) (iheap (heap \<sigma>)) = Inl e"
      "\<sigma>' = \<sigma>\<lparr>heap := emit (RunFailed (nodes f ! k)) (heap \<sigma>),
               pcs := (pcs \<sigma>)[k := Crashed e]\<rparr>"
  | (ran) k ws s2 where "c = Thread k" "k < length (pcs \<sigma>)" "k < length (nodes f)"
      "pcs \<sigma> ! k = Running" "b (nodes f ! k) (iheap (heap \<sigma>)) = Inr ws"
      "s2 = upd_node (nodes f ! k) (\<lambda>x. x\<lparr>canRun := False\<rparr>)
              (emit (RunEnd (nodes f ! k))
                 (upd_node (nodes f ! k) (\<lambda>x. x\<lparr>running := False\<rparr>) (set_values ws (heap \<sigma>))))"
      "\<sigma>' = \<sigma>\<lparr>heap := s2, pcs := (pcs \<sigma>)[k := Publishing (publish_list s2 (nodes f ! k))]\<rparr>"
  | (finish) k where "c = Thread k" "k < length (pcs \<sigma>)" "k < length (nodes f)"
      "pcs \<sigma> ! k = Publishing []"
      "\<sigma>' = \<sigma>\<lparr>heap := heap \<sigma>, pcs := (pcs \<sigma>)[k := Finished]\<rparr>"
  | (lost) k d ds e where "c = Thread k" "k < length (pcs \<sigma>)" "k < length (nodes f)"
      "pcs \<sigma> ! k = Publishing (d # ds)" "onContentReady (snd d) (fst d) (heap \<sigma>) = Inl e"
      "\<sigma>' = \<sigma>\<lparr>heap := heap \<sigma>, pcs := (pcs \<sigma>)[k := Crashed e]\<rparr>"
  | (deliver) k d ds s' where "c = Thread k" "k < length (pcs \<sigma>)" "k < length (nodes f)"
      "pcs \<sigma> ! k = Publishing (d # ds)" "onContentReady (snd d) (fst d) (heap \<sigma>) = Inr s'"
      "\<sigma>' = \<sigma>\<lparr>heap := s', pcs := (pcs \<sigma>)[k := Publishing ds]\<rparr>"
proof (cases c)
  case Kick
  with assms show ?thesis
    by (cases "kicks \<sigma>") (auto simp: fire_def intro: kick)
next
  case (Thread k)
  with assms have k: "k < length (pcs \<sigma>)" "k < length (nodes f)"
    and ts: "thread_step b (nodes f ! k) (pcs \<sigma> ! k) (heap \<sigma>) \<noteq> None"
    and s': "\<sigma>' = \<sigma>\<lparr>heap := snd (the (thread_step b (nodes f ! k) (pcs \<sigma> ! k) (heap \<sigma>))),
               pcs := (pcs \<sigma>)[k := fst (the (thread_step b (nodes f ! k) (pcs \<sigma> ! k) (heap \<sigma>)))]\<rparr>"
    by (auto simp: fire_def split: if_splits option.splits)
  show ?thesis
  proof (cases "pcs \<sigma> ! k")
    case Waiting
    with ts s' k Thread show ?thesis
      by (intro wake [of k]) (auto split: if_splits)
  next
    case Running
    show ?thesis
    proof (cases "b (nodes f ! k) (iheap (heap \<sigma>))")
      case (Inl e)
      with Running ts s' k Thread show ?thesis
        by (intro fault [of k e]) auto
    next
      case (Inr ws)
      with Running ts s' k Thread show ?thesis
        by (intro ran [of k ws]) (auto simp: Let_def)
    qed
  next
    case (Publishing ds)
    show ?thesis
    proof (cases ds)
      case Nil
      with Publishing ts s' k Thread show ?thesis
        by (intro finish [of k]) auto
    next
      case (Cons d ds')
      show ?thesis
      proof (cases "onContentReady (snd d) (fst d) (heap \<sigma>)")
        case (Inl e)
        with Cons Publishing ts s' k Thread show ?thesis
          by (intro lost [of k d ds' e]) auto
      next
        case (Inr s1)
        with Cons Publishing ts s' k Thread show ?thesis
          by (intro deliver [of k d ds' s1]) auto
      qed
    qed
  next
    case Finished
    with ts show ?thesis by simp
  next
    case (Crashed e)
    with ts show ?thesis by simp
  qed
qed

lemma kick_same_graph: "same_graph s (kick n s)"
  by (simp add: kick_def canRun_set_def same_graph_def)

lemma fire_same_graph:
  assumes "fire b f c \<sigma> = Some \<sigma>'"
  shows "same_graph (heap \<sigma>) (heap \<sigma>')"
  using assms
proof (cases rule: fire_cases)
  case (kick n ns)
  then show ?thesis by (simp add: kick_same_graph)
next
  case (wake k)
  then show ?thesis by (simp add: same_graph_def)
next
  case (fault k e)
  then show ?thesis by simp
next
  case (ran k ws s2)
  have "same_graph (heap \<sigma>) (set_values ws (heap \<sigma>))" by (rule same_graph_set_values)
  then show ?thesis using ran by (simp add: same_graph_def)
next
  case (finish k)
  then show ?thesis by simp
next
  case (lost k d ds e)
  then show ?thesis by simp
next
  case (deliver k d ds s')
  from onContentReady_effect [OF deliver(5)] deliver(6) show ?thesis by auto
qed

section \<open>What every state of an execution satisfies\<close>

lemma hb_append: "b \<in> set l \<Longrightarrow> happens_before a b (l @ m) = happens_before a b l"
  by (simp add: happens_before_def takeWhile_append1)

lemma takeWhile_first: "b \<notin> set l \<Longrightarrow> takeWhile (\<lambda>x. x \<noteq> b) (l @ b # m) = l"
  by (induction l) auto

lemma hb_first: "b \<notin> set l \<Longrightarrow> happens_before a b (l @ b # m) = (a \<in> set l)"
  by (simp add: happens_before_def takeWhile_first)

lemma simple_linkD:
  assumes "simple_link f s N1 out inp N2"
  shows "distinct (nodes f)" "N1 \<in> set (nodes f)" "N2 \<in> set (nodes f)" "N1 \<noteq> N2"
    "isInputNode (nclass (nheap s N1))" "node_predecessors s N1 = []"
    "(out, inp) \<in> set (publish_list s N1)"
    "node (iheap s inp) = N2" "predecessors (iheap s inp) = [out]"
    "\<not> (isInputNode (nclass (nheap s N2)) \<and> node_predecessors s N2 = [])"
    "length (inputSlotInterfaces s N2) \<le> 1"
    "log s = []" "\<not> canRun (nheap s N2)"
  using assms by (simp_all add: simple_link_def)

lemma simple_link_into:
  assumes "simple_link f s N1 out inp N2" and "n \<in> set (nodes f)"
    and "d \<in> set (publish_list s n)" and "node (iheap s (snd d)) = N2"
  shows "d = (out, inp) \<and> n = N1"
  using assms by (auto simp: simple_link_def list_all_iff)


lemma shape_inv_init: "shape_inv f s (Runner_start f s)"
  by (auto simp: shape_inv_def Runner_start_def)

lemma shape_inv_step:
  assumes "shape_inv f s0 \<sigma>" and "fire b f c \<sigma> = Some \<sigma>'"
  shows "shape_inv f s0 \<sigma>'"
proof -
  from assms(1) have sg: "same_graph s0 (heap \<sigma>)" and len: "length (pcs \<sigma>) = length (nodes f)"
    and ks: "set (kicks \<sigma>) \<subseteq> set (inputNodes s0 f)"
    and pub: "\<And>k ds. k < length (nodes f) \<Longrightarrow> pcs \<sigma> ! k = Publishing ds
            \<Longrightarrow> set ds \<subseteq> set (publish_list s0 (nodes f ! k))"
    by (auto simp: shape_inv_def)
  have sg': "same_graph s0 (heap \<sigma>')"
    using sg fire_same_graph [OF assms(2)] by (rule same_graph_trans)
  from assms(2) show ?thesis
  proof (cases rule: fire_cases)
    case (kick n ns)
    then show ?thesis using sg' len ks pub by (auto simp: shape_inv_def)
  next
    case (wake k)
    then show ?thesis using sg' len ks pub
      by (auto simp: shape_inv_def nth_list_update)
  next
    case (fault k e)
    then show ?thesis using sg' len ks pub
      by (auto simp: shape_inv_def nth_list_update)
  next
    case (ran k ws s2)
    from sg' ran have "publish_list s2 (nodes f ! k) = publish_list s0 (nodes f ! k)"
      by (simp add: same_graph_funs)
    then show ?thesis using ran sg' len ks pub
      by (auto simp: shape_inv_def nth_list_update)
  next
    case (finish k)
    then show ?thesis using sg' len ks pub
      by (auto simp: shape_inv_def nth_list_update)
  next
    case (lost k d ds e)
    then show ?thesis using sg' len ks pub
      by (auto simp: shape_inv_def nth_list_update)
  next
    case (deliver k d ds s')
    from pub [OF deliver(3) deliver(4)] have "set ds \<subseteq> set (publish_list s0 (nodes f ! k))"
      by auto
    then show ?thesis using deliver sg' len ks pub
      by (auto simp: shape_inv_def nth_list_update)
  qed
qed


lemma order_inv_init:
  assumes "simple_link f s N1 out inp N2" and "k1 < length (nodes f)" and "k2 < length (nodes f)"
  shows "order_inv N1 out inp N2 k1 k2 (Runner_start f s)"
  using assms(2,3) simple_linkD(12,13) [OF assms(1)]
  by (simp add: order_inv_def Runner_start_def)

lemma order_inv_extend:
  assumes inv: "order_inv N1 out inp N2 k1 k2 \<sigma>"
    and lg: "log (heap \<sigma>') = log (heap \<sigma>) @ evs"
    and nb: "RunBegin N2 \<notin> set evs"
    and pc2: "(pcs \<sigma>' ! k2 = Waiting) = (pcs \<sigma> ! k2 = Waiting)"
    and gate: "canRun (nheap (heap \<sigma>') N2)
                 \<Longrightarrow> canRun (nheap (heap \<sigma>) N2) \<or> GateSet N2 \<in> set evs"
    and gs: "GateSet N2 \<in> set evs \<Longrightarrow> Delivered out inp \<in> set (log (heap \<sigma>) @ evs)"
    and dl: "Delivered out inp \<in> set evs \<Longrightarrow> RunEnd N1 \<in> set (log (heap \<sigma>) @ evs)"
    and p1: "\<And>ds. pcs \<sigma>' ! k1 = Publishing ds
                 \<Longrightarrow> (\<exists>ds'. pcs \<sigma> ! k1 = Publishing ds') \<or> RunEnd N1 \<in> set evs"
  shows "order_inv N1 out inp N2 k1 k2 \<sigma>'"
proof -
  let ?L = "log (heap \<sigma>)"
  from inv have w: "(pcs \<sigma> ! k2 = Waiting) = (RunBegin N2 \<notin> set ?L)"
    and cnt: "count_list ?L (RunBegin N2) \<le> 1"
    and g: "canRun (nheap (heap \<sigma>) N2) \<longrightarrow> GateSet N2 \<in> set ?L"
    and gd: "GateSet N2 \<in> set ?L \<longrightarrow> Delivered out inp \<in> set ?L"
    and dr: "Delivered out inp \<in> set ?L \<longrightarrow> RunEnd N1 \<in> set ?L"
    and pr: "(\<exists>ds. pcs \<sigma> ! k1 = Publishing ds) \<longrightarrow> RunEnd N1 \<in> set ?L"
    and hb: "RunBegin N2 \<in> set ?L \<longrightarrow>
            happens_before (GateSet N2) (RunBegin N2) ?L
            \<and> happens_before (Delivered out inp) (RunBegin N2) ?L
            \<and> happens_before (RunEnd N1) (RunBegin N2) ?L"
    by (simp_all add: order_inv_def)
  have c0: "count_list evs (RunBegin N2) = 0" using nb by (simp add: count_list_0_iff)
  have 1: "(pcs \<sigma>' ! k2 = Waiting) = (RunBegin N2 \<notin> set (log (heap \<sigma>')))"
    using w pc2 nb lg by auto
  have 2: "count_list (log (heap \<sigma>')) (RunBegin N2) \<le> 1"
    using cnt c0 lg by simp
  have 3: "canRun (nheap (heap \<sigma>') N2) \<longrightarrow> GateSet N2 \<in> set (log (heap \<sigma>'))"
    using g gate lg by auto
  have 4: "GateSet N2 \<in> set (log (heap \<sigma>')) \<longrightarrow> Delivered out inp \<in> set (log (heap \<sigma>'))"
    using gd gs lg by auto
  have 5: "Delivered out inp \<in> set (log (heap \<sigma>')) \<longrightarrow> RunEnd N1 \<in> set (log (heap \<sigma>'))"
    using dr dl lg by auto
  have 6: "(\<exists>ds. pcs \<sigma>' ! k1 = Publishing ds) \<longrightarrow> RunEnd N1 \<in> set (log (heap \<sigma>'))"
    using pr p1 lg by auto
  have 7: "RunBegin N2 \<in> set (log (heap \<sigma>')) \<longrightarrow>
            happens_before (GateSet N2) (RunBegin N2) (log (heap \<sigma>'))
            \<and> happens_before (Delivered out inp) (RunBegin N2) (log (heap \<sigma>'))
            \<and> happens_before (RunEnd N1) (RunBegin N2) (log (heap \<sigma>'))"
  proof
    assume "RunBegin N2 \<in> set (log (heap \<sigma>'))"
    with nb lg have i: "RunBegin N2 \<in> set ?L" by auto
    with hb show "happens_before (GateSet N2) (RunBegin N2) (log (heap \<sigma>'))
            \<and> happens_before (Delivered out inp) (RunBegin N2) (log (heap \<sigma>'))
            \<and> happens_before (RunEnd N1) (RunBegin N2) (log (heap \<sigma>'))"
      by (simp add: lg hb_append)
  qed
  from 1 2 3 4 5 6 7 show ?thesis unfolding order_inv_def by blast
qed

lemma order_inv_wake:
  assumes inv: "order_inv N1 out inp N2 k1 k2 \<sigma>"
    and lg: "log (heap \<sigma>') = log (heap \<sigma>) @ [RunBegin N2]"
    and was: "pcs \<sigma> ! k2 = Waiting" and now: "pcs \<sigma>' ! k2 = Running"
    and open_gate: "canRun (nheap (heap \<sigma>) N2)"
    and gate: "canRun (nheap (heap \<sigma>') N2) = canRun (nheap (heap \<sigma>) N2)"
    and p1: "\<And>ds. pcs \<sigma>' ! k1 = Publishing ds \<Longrightarrow> \<exists>ds'. pcs \<sigma> ! k1 = Publishing ds'"
  shows "order_inv N1 out inp N2 k1 k2 \<sigma>'"
proof -
  let ?L = "log (heap \<sigma>)"
  from inv have w: "(pcs \<sigma> ! k2 = Waiting) = (RunBegin N2 \<notin> set ?L)"
    and g: "canRun (nheap (heap \<sigma>) N2) \<longrightarrow> GateSet N2 \<in> set ?L"
    and gd: "GateSet N2 \<in> set ?L \<longrightarrow> Delivered out inp \<in> set ?L"
    and dr: "Delivered out inp \<in> set ?L \<longrightarrow> RunEnd N1 \<in> set ?L"
    and pr: "(\<exists>ds. pcs \<sigma> ! k1 = Publishing ds) \<longrightarrow> RunEnd N1 \<in> set ?L"
    by (simp_all add: order_inv_def)
  from w was have fresh: "RunBegin N2 \<notin> set ?L" by simp
  from g open_gate have gs: "GateSet N2 \<in> set ?L" by simp
  with gd have de: "Delivered out inp \<in> set ?L" by simp
  with dr have re: "RunEnd N1 \<in> set ?L" by simp
  have c0: "count_list ?L (RunBegin N2) = 0" using fresh by (simp add: count_list_0_iff)
  have 1: "(pcs \<sigma>' ! k2 = Waiting) = (RunBegin N2 \<notin> set (log (heap \<sigma>')))"
    using now lg by simp
  have 2: "count_list (log (heap \<sigma>')) (RunBegin N2) \<le> 1"
    using c0 lg by simp
  have 3: "canRun (nheap (heap \<sigma>') N2) \<longrightarrow> GateSet N2 \<in> set (log (heap \<sigma>'))"
    using gs lg by simp
  have 4: "GateSet N2 \<in> set (log (heap \<sigma>')) \<longrightarrow> Delivered out inp \<in> set (log (heap \<sigma>'))"
    using de lg by simp
  have 5: "Delivered out inp \<in> set (log (heap \<sigma>')) \<longrightarrow> RunEnd N1 \<in> set (log (heap \<sigma>'))"
    using re lg by simp
  have 6: "(\<exists>ds. pcs \<sigma>' ! k1 = Publishing ds) \<longrightarrow> RunEnd N1 \<in> set (log (heap \<sigma>'))"
    using pr p1 lg by auto
  have 7: "RunBegin N2 \<in> set (log (heap \<sigma>')) \<longrightarrow>
            happens_before (GateSet N2) (RunBegin N2) (log (heap \<sigma>'))
            \<and> happens_before (Delivered out inp) (RunBegin N2) (log (heap \<sigma>'))
            \<and> happens_before (RunEnd N1) (RunBegin N2) (log (heap \<sigma>'))"
    using fresh gs de re by (simp add: lg hb_first)
  from 1 2 3 4 5 6 7 show ?thesis unfolding order_inv_def by blast
qed


lemma in_inputNodes: "n \<in> set (inputNodes s f) \<Longrightarrow> isInputNode (nclass (nheap s n))"
  by (simp add: inputNodes_def)

lemma order_inv_step:
  assumes sl: "simple_link f s0 N1 out inp N2"
    and k1: "k1 < length (nodes f)" and k2: "k2 < length (nodes f)"
    and n1: "nodes f ! k1 = N1" and n2: "nodes f ! k2 = N2"
    and sh: "shape_inv f s0 \<sigma>" and inv: "order_inv N1 out inp N2 k1 k2 \<sigma>"
    and fi: "fire b f c \<sigma> = Some \<sigma>'"
  shows "order_inv N1 out inp N2 k1 k2 \<sigma>'"
proof -
  note d = simple_linkD [OF sl]
  from sh have sg: "same_graph s0 (heap \<sigma>)" and len: "length (pcs \<sigma>) = length (nodes f)"
    and ks: "set (kicks \<sigma>) \<subseteq> set (inputNodes s0 f)"
    and pub: "\<And>k ds. k < length (nodes f) \<Longrightarrow> pcs \<sigma> ! k = Publishing ds
            \<Longrightarrow> set ds \<subseteq> set (publish_list s0 (nodes f ! k))"
    by (auto simp: shape_inv_def)
  have idx2: "\<And>k. k < length (nodes f) \<Longrightarrow> (nodes f ! k = N2) = (k = k2)"
    using d(1) k2 n2 by (auto simp: nth_eq_iff_index_eq)
  have idx1: "\<And>k. k < length (nodes f) \<Longrightarrow> (nodes f ! k = N1) = (k = k1)"
    using d(1) k1 n1 by (auto simp: nth_eq_iff_index_eq)
  have k12: "k1 \<noteq> k2" using d(4) n1 n2 by auto
  from inv have pr: "(\<exists>ds. pcs \<sigma> ! k1 = Publishing ds) \<longrightarrow> RunEnd N1 \<in> set (log (heap \<sigma>))"
    by (simp add: order_inv_def)
  from fi show ?thesis
  proof (cases rule: fire_cases)
    case (kick n ns)
    have nin: "n \<in> set (inputNodes s0 f)" using kick(2) ks by auto
    have np: "node_predecessors (heap \<sigma>) n = node_predecessors s0 n"
      using sg by (rule same_graph_funs)
    have not2: "\<not> (n = N2 \<and> node_predecessors (heap \<sigma>) n = [])"
      using d(10) in_inputNodes [OF nin] np by auto
    show ?thesis
    proof (rule order_inv_extend [OF inv,
          where evs = "if node_predecessors (heap \<sigma>) n = [] then [GateSet n] else []"])
      show "log (heap \<sigma>') = log (heap \<sigma>)
              @ (if node_predecessors (heap \<sigma>) n = [] then [GateSet n] else [])"
        using kick by (simp add: kick_simps)
    qed (use kick not2 in \<open>auto simp: kick_simps\<close>)
  next
    case (wake k)
    show ?thesis
    proof (cases "k = k2")
      case True
      show ?thesis
      proof (rule order_inv_wake [OF inv])
        show "log (heap \<sigma>') = log (heap \<sigma>) @ [RunBegin N2]"
          using wake True n2 by simp
      qed (use wake True n2 len k1 k2 k12 in \<open>auto simp: nth_list_update split: if_splits\<close>)
    next
      case False
      then have ne: "nodes f ! k \<noteq> N2" using idx2 wake(3) by simp
      show ?thesis
      proof (rule order_inv_extend [OF inv, where evs = "[RunBegin (nodes f ! k)]"])
        show "log (heap \<sigma>') = log (heap \<sigma>) @ [RunBegin (nodes f ! k)]"
          using wake by simp
      qed (use wake False ne len k1 k2 in \<open>auto simp: nth_list_update split: if_splits\<close>)
    qed
  next
    case (fault k e)
    show ?thesis
    proof (rule order_inv_extend [OF inv, where evs = "[RunFailed (nodes f ! k)]"])
      show "log (heap \<sigma>') = log (heap \<sigma>) @ [RunFailed (nodes f ! k)]"
        using fault by simp
    qed (use fault len k1 k2 in \<open>auto simp: nth_list_update split: if_splits\<close>)
  next
    case (ran k ws s2)
    show ?thesis
    proof (rule order_inv_extend [OF inv, where evs = "[RunEnd (nodes f ! k)]"])
      show "log (heap \<sigma>') = log (heap \<sigma>) @ [RunEnd (nodes f ! k)]"
        using ran by simp
    qed (use ran len k1 k2 n1 in \<open>auto simp: nth_list_update split: if_splits\<close>)
  next
    case (finish k)
    show ?thesis
    proof (rule order_inv_extend [OF inv, where evs = "[]"])
      show "log (heap \<sigma>') = log (heap \<sigma>) @ []"
        using finish by simp
    qed (use finish len k1 k2 in \<open>auto simp: nth_list_update split: if_splits\<close>)
  next
    case (lost k d ds e)
    show ?thesis
    proof (rule order_inv_extend [OF inv, where evs = "[]"])
      show "log (heap \<sigma>') = log (heap \<sigma>) @ []"
        using lost by simp
    qed (use lost len k1 k2 in \<open>auto simp: nth_list_update split: if_splits\<close>)
  next
    case (deliver k dd ds s')
    from onContentReady_effect [OF deliver(5)] obtain evs where
      lg: "log s' = log (heap \<sigma>) @ Delivered (fst dd) (snd dd) # evs"
      and ev: "set evs \<subseteq> {Notified (node (iheap (heap \<sigma>) (snd dd))) (snd dd),
                          GateSet (node (iheap (heap \<sigma>) (snd dd)))}"
      and cr: "\<forall>m. canRun (nheap s' m)
            = (canRun (nheap (heap \<sigma>) m)
               \<or> (m = node (iheap (heap \<sigma>) (snd dd)) \<and> GateSet m \<in> set evs))"
      by blast
    have nd: "node (iheap (heap \<sigma>) (snd dd)) = node (iheap s0 (snd dd))"
      using sg by (simp add: same_graph_def)
    have din: "dd \<in> set (publish_list s0 (nodes f ! k))"
      using pub [OF deliver(3) deliver(4)] by simp
    have kin: "nodes f ! k \<in> set (nodes f)" using deliver(3) by simp
    have into: "node (iheap s0 (snd dd)) = N2 \<Longrightarrow> dd = (out, inp) \<and> k = k1"
      using simple_link_into [OF sl kin din] idx1 [OF deliver(3)] by simp
    show ?thesis
    proof (rule order_inv_extend [OF inv, where evs = "Delivered (fst dd) (snd dd) # evs"])
      show "log (heap \<sigma>') = log (heap \<sigma>) @ Delivered (fst dd) (snd dd) # evs"
        using deliver lg by simp
      show "RunBegin N2 \<notin> set (Delivered (fst dd) (snd dd) # evs)"
        using ev by auto
      show "(pcs \<sigma>' ! k2 = Waiting) = (pcs \<sigma> ! k2 = Waiting)"
        using deliver len k2 by (auto simp: nth_list_update)
      show "canRun (nheap (heap \<sigma>) N2) \<or> GateSet N2 \<in> set (Delivered (fst dd) (snd dd) # evs)"
        if "canRun (nheap (heap \<sigma>') N2)"
        using that cr deliver by auto
      show "Delivered out inp \<in> set (log (heap \<sigma>) @ Delivered (fst dd) (snd dd) # evs)"
        if "GateSet N2 \<in> set (Delivered (fst dd) (snd dd) # evs)"
      proof -
        from that ev have "node (iheap (heap \<sigma>) (snd dd)) = N2" by auto
        with nd into have "dd = (out, inp)" by simp
        then show ?thesis by simp
      qed
      show "RunEnd N1 \<in> set (log (heap \<sigma>) @ Delivered (fst dd) (snd dd) # evs)"
        if "Delivered out inp \<in> set (Delivered (fst dd) (snd dd) # evs)"
      proof -
        from that ev have "snd dd = inp" by auto
        with d(8) into have "k = k1" by simp
        with deliver(4) pr show ?thesis by simp
      qed
      show "(\<exists>ds'. pcs \<sigma> ! k1 = Publishing ds') \<or> RunEnd N1 \<in> set (Delivered (fst dd) (snd dd) # evs)"
        if "pcs \<sigma>' ! k1 = Publishing ds''" for ds''
        using that deliver len k1 by (auto simp: nth_list_update split: if_splits)
    qed
  qed
qed




section \<open>Executions end\<close>







section \<open>Readiness propagation\<close>

lemma thread_step_None:
  "thread_step b n p s = None
     \<longleftrightarrow> (p = Waiting \<and> \<not> canRun (nheap s n)) \<or> p = Finished \<or> (\<exists>e. p = Crashed e)"
proof (cases p)
  case (Publishing ds)
  then show ?thesis by (cases ds) (auto split: sum.splits)
qed (auto simp: Let_def split: sum.splits)


lemma link_invariants:
  assumes sl: "simple_link f s N1 out inp N2"
    and k1: "k1 < length (nodes f)" and k2: "k2 < length (nodes f)"
    and n1: "nodes f ! k1 = N1" and n2: "nodes f ! k2 = N2"
    and run: "run_schedule b f cs (Runner_start f s) = Some \<sigma>"
  shows "shape_inv f s \<sigma> \<and> order_inv N1 out inp N2 k1 k2 \<sigma>"
  using run
proof (induction rule: reach_induct)
  case init
  show ?case using shape_inv_init order_inv_init [OF sl k1 k2] by simp
next
  case (step cs \<sigma> c \<sigma>')
  then show ?case
    using shape_inv_step order_inv_step [OF sl k1 k2 n1 n2] by blast
qed


section \<open>Readiness propagation from one node to the next\<close>

lemma pipeline_link: "simple_link pipeline_flow pipeline 0 (Suc 0) 3 (Suc 0)"
  by code_simp


lemma never_ends:
  assumes bad: "\<And>h. \<exists>e. b N1 h = Inl e" and fresh: "log s = []"
    and run: "run_schedule b f cs (Runner_start f s) = Some \<sigma>"
  shows "RunEnd N1 \<notin> set (log (heap \<sigma>))"
  using run
proof (induction rule: reach_induct)
  case init
  show ?case using fresh by (simp add: Runner_start_def)
next
  case (step cs \<sigma> c \<sigma>')
  from step.hyps(2) show ?case
  proof (cases rule: fire_cases)
    case (kick n ns)
    then show ?thesis using step.IH by (simp add: kick_simps)
  next
    case (wake k)
    then show ?thesis using step.IH by simp
  next
    case (fault k e)
    then show ?thesis using step.IH by simp
  next
    case (ran k ws s2)
    with bad [of "iheap (heap \<sigma>)"] have "nodes f ! k \<noteq> N1" by auto
    then show ?thesis using ran step.IH by simp
  next
    case (finish k)
    then show ?thesis using step.IH by simp
  next
    case (lost k d ds e)
    then show ?thesis using step.IH by simp
  next
    case (deliver k d ds s')
    from onContentReady_effect [OF deliver(5)] obtain evs where
      "log s' = log (heap \<sigma>) @ Delivered (fst d) (snd d) # evs"
      "set evs \<subseteq> {Notified (node (iheap (heap \<sigma>) (snd d))) (snd d),
                          GateSet (node (iheap (heap \<sigma>) (snd d)))}"
      by blast
    then show ?thesis using deliver(6) step.IH by auto
  qed
qed

lemma never_runs:
  assumes sl: "simple_link f s N1 out inp N2" and bad: "\<And>h. \<exists>e. b N1 h = Inl e"
    and run: "run_schedule b f cs (Runner_start f s) = Some \<sigma>"
  shows "RunBegin N2 \<notin> set (log (heap \<sigma>)) \<and> \<not> returned \<sigma>"
proof -
  note d = simple_linkD [OF sl]
  from d(2) obtain k1 where k1: "k1 < length (nodes f)" and n1: "nodes f ! k1 = N1"
    by (auto simp: in_set_conv_nth)
  from d(3) obtain k2 where k2: "k2 < length (nodes f)" and n2: "nodes f ! k2 = N2"
    by (auto simp: in_set_conv_nth)
  from link_invariants [OF sl k1 k2 n1 n2 run]
  have sh: "shape_inv f s \<sigma>" and oi: "order_inv N1 out inp N2 k1 k2 \<sigma>" by simp_all
  from oi have w: "(pcs \<sigma> ! k2 = Waiting) = (RunBegin N2 \<notin> set (log (heap \<sigma>)))"
    and hb: "RunBegin N2 \<in> set (log (heap \<sigma>)) \<longrightarrow>
          happens_before (RunEnd N1) (RunBegin N2) (log (heap \<sigma>))"
    by (simp_all add: order_inv_def)
  have no_end: "RunEnd N1 \<notin> set (log (heap \<sigma>))"
    using never_ends [of b N1, OF bad d(12) run] .
  have nb: "RunBegin N2 \<notin> set (log (heap \<sigma>))"
  proof
    assume "RunBegin N2 \<in> set (log (heap \<sigma>))"
    with hb have "RunEnd N1 \<in> set (takeWhile (\<lambda>x. x \<noteq> RunBegin N2) (log (heap \<sigma>)))"
      by (simp add: happens_before_def)
    then have "RunEnd N1 \<in> set (log (heap \<sigma>))" by (rule set_takeWhileD [THEN conjunct1])
    with no_end show False by simp
  qed
  with w have "pcs \<sigma> ! k2 = Waiting" by simp
  moreover from sh have "k2 < length (pcs \<sigma>)" using k2 by (simp add: shape_inv_def)
  ultimately have "Waiting \<in> set (pcs \<sigma>)" by (metis nth_mem)
  then have "\<not> list_all ended (pcs \<sigma>)"
    by (auto simp: list_all_iff intro!: bexI [of _ Waiting])
  with nb show ?thesis by (simp add: returned_def)
qed

lemma crashed_stays:
  assumes "run_schedule b f cs \<sigma> = Some \<sigma>'" and "k < length (pcs \<sigma>)"
    and "pcs \<sigma> ! k = Crashed e"
  shows "k < length (pcs \<sigma>') \<and> pcs \<sigma>' ! k = Crashed e"
  using assms
proof (induction cs arbitrary: \<sigma>)
  case Nil
  then show ?case by simp
next
  case (Cons c cs)
  from Cons.prems(1) obtain \<sigma>1 where fi: "fire b f c \<sigma> = Some \<sigma>1"
    and r: "run_schedule b f cs \<sigma>1 = Some \<sigma>'"
    by (auto split: option.splits)
  from fi have "k < length (pcs \<sigma>1) \<and> pcs \<sigma>1 ! k = Crashed e"
    by (cases rule: fire_cases) (use Cons.prems(2,3) in \<open>auto simp: nth_list_update\<close>)
  with Cons.IH [OF r] show ?case by simp
qed




section \<open>Faults in run()\<close>

lemma fire_thread_None:
  "fire b f (Thread j) \<sigma> = None
     \<longleftrightarrow> \<not> (j < length (pcs \<sigma>) \<and> j < length (nodes f))
         \<or> thread_step b (nodes f ! j) (pcs \<sigma> ! j) (heap \<sigma>) = None"
  by (simp add: fire_def split: option.splits)

text \<open>
  Claim C8. The claim: a fault raised by a node's \<open>run()\<close> is caught at the worker
  boundary and recorded against the node, does not terminate the other workers or the
  scheduler, and after joining all workers the scheduler reports the set of failed
  nodes. \<open>NodeRunner.run\<close> calls \<open>self.node.start()\<close> with no handler, and \<open>Runner\<close> keeps
  no record. In \<open>pipeline\<close> with a FileInputNode whose \<open>run()\<close> raises, the execution
  comes to rest after three steps with the worker of the FileOutputNode still waiting
  at its gate, and no execution reaches a state in which \<open>Runner.start\<close> returns.
\<close>

theorem fault_blocks_scheduler:
  "map_option (\<lambda>\<sigma>. (pcs \<sigma>, quiescent failing_body pipeline_flow \<sigma>, log (heap \<sigma>)))
     (run_schedule failing_body pipeline_flow [Kick, Thread 0, Thread 0]
        (Runner_start pipeline_flow pipeline))
     = Some ([Crashed RunFault, Waiting], True, [GateSet 0, RunBegin 0, RunFailed 0])
   \<and> \<not> (\<exists>cs \<sigma>. run_schedule failing_body pipeline_flow cs
                  (Runner_start pipeline_flow pipeline) = Some \<sigma> \<and> returned \<sigma>)"
proof -
  have "\<And>h. \<exists>e. failing_body 0 h = Inl e" by (simp add: failing_body_def)
  from never_runs [of pipeline_flow pipeline 0 "Suc 0" 3 "Suc 0" failing_body,
      OF pipeline_link this]
  have "\<not> (\<exists>cs \<sigma>. run_schedule failing_body pipeline_flow cs
                  (Runner_start pipeline_flow pipeline) = Some \<sigma> \<and> returned \<sigma>)"
    by blast
  moreover have "map_option (\<lambda>\<sigma>. (pcs \<sigma>, quiescent failing_body pipeline_flow \<sigma>, log (heap \<sigma>)))
     (run_schedule failing_body pipeline_flow [Kick, Thread 0, Thread 0]
        (Runner_start pipeline_flow pipeline))
     = Some ([Crashed RunFault, Waiting], True, [GateSet 0, RunBegin 0, RunFailed 0])"
    by code_simp
  ultimately show ?thesis by blast
qed

text \<open>
  Claim C8, amended. A fault raised by a node's \<open>run()\<close> is not caught: it ends the
  worker of that node, which stays ended and so publishes nothing. The fault changes
  nothing in the store (the node keeps \<open>running = True\<close> and its gate), nothing records
  it, and every other worker can move exactly when it could before. But a node that
  waits for the output of the faulted node alone (the situation \<open>simple_link\<close>) never
  runs, and \<open>Runner.start\<close> then never returns.
\<close>

theorem fault_stays_local:
  "(k < length (pcs \<sigma>) \<and> k < length (nodes f) \<and> pcs \<sigma> ! k = Running
      \<and> b (nodes f ! k) (iheap (heap \<sigma>)) = Inl e \<longrightarrow>
     (\<exists>\<sigma>'. fire b f (Thread k) \<sigma> = Some \<sigma>'
        \<and> pcs \<sigma>' = (pcs \<sigma>)[k := Crashed e] \<and> kicks \<sigma>' = kicks \<sigma>
        \<and> iheap (heap \<sigma>') = iheap (heap \<sigma>) \<and> nheap (heap \<sigma>') = nheap (heap \<sigma>)
        \<and> log (heap \<sigma>') = log (heap \<sigma>) @ [RunFailed (nodes f ! k)]
        \<and> (\<forall>j. j \<noteq> k \<longrightarrow> (fire b f (Thread j) \<sigma>' = None) = (fire b f (Thread j) \<sigma> = None))
        \<and> (\<forall>cs \<sigma>''. run_schedule b f cs \<sigma>' = Some \<sigma>'' \<longrightarrow> pcs \<sigma>'' ! k = Crashed e)))
   \<and> (simple_link f s N1 out inp N2 \<and> (\<forall>h. \<exists>e. b N1 h = Inl e)
        \<and> run_schedule b f cs (Runner_start f s) = Some \<tau>
      \<longrightarrow> RunBegin N2 \<notin> set (log (heap \<tau>)) \<and> \<not> returned \<tau>)"
proof (intro conjI impI)
  assume a: "k < length (pcs \<sigma>) \<and> k < length (nodes f) \<and> pcs \<sigma> ! k = Running
      \<and> b (nodes f ! k) (iheap (heap \<sigma>)) = Inl e"
  let ?\<sigma>' = "\<sigma>\<lparr>heap := emit (RunFailed (nodes f ! k)) (heap \<sigma>), pcs := (pcs \<sigma>)[k := Crashed e]\<rparr>"
  have f: "fire b f (Thread k) \<sigma> = Some ?\<sigma>'" using a by (simp add: fire_def)
  have others: "(fire b f (Thread j) ?\<sigma>' = None) = (fire b f (Thread j) \<sigma> = None)"
    if "j \<noteq> k" for j
    using that by (auto simp: fire_thread_None thread_step_None)
  have stays: "pcs \<sigma>'' ! k = Crashed e" if "run_schedule b f cs' ?\<sigma>' = Some \<sigma>''" for cs' \<sigma>''
    using crashed_stays [OF that, of k e] a by simp
  show "\<exists>\<sigma>'. fire b f (Thread k) \<sigma> = Some \<sigma>'
        \<and> pcs \<sigma>' = (pcs \<sigma>)[k := Crashed e] \<and> kicks \<sigma>' = kicks \<sigma>
        \<and> iheap (heap \<sigma>') = iheap (heap \<sigma>) \<and> nheap (heap \<sigma>') = nheap (heap \<sigma>)
        \<and> log (heap \<sigma>') = log (heap \<sigma>) @ [RunFailed (nodes f ! k)]
        \<and> (\<forall>j. j \<noteq> k \<longrightarrow> (fire b f (Thread j) \<sigma>' = None) = (fire b f (Thread j) \<sigma> = None))
        \<and> (\<forall>cs \<sigma>''. run_schedule b f cs \<sigma>' = Some \<sigma>'' \<longrightarrow> pcs \<sigma>'' ! k = Crashed e)"
    apply (rule exI [of _ ?\<sigma>'])
    using f others stays by simp
next
  assume a: "simple_link f s N1 out inp N2 \<and> (\<forall>h. \<exists>e. b N1 h = Inl e)
        \<and> run_schedule b f cs (Runner_start f s) = Some \<tau>"
  then have bad: "\<And>h. \<exists>e. b N1 h = Inl e" by simp
  from never_runs [of f s N1 out inp N2 b, OF _ bad] a
  show "RunBegin N2 \<notin> set (log (heap \<tau>))" and "\<not> returned \<tau>" by blast+
qed

theorem fault_stays_local_witness:
  "0 < length (pcs in_run) \<and> 0 < length (nodes pipeline_flow) \<and> pcs in_run ! 0 = Running
   \<and> failing_body (nodes pipeline_flow ! 0) (iheap (heap in_run)) = Inl RunFault
   \<and> (\<exists>\<sigma>'. fire failing_body pipeline_flow (Thread 0) in_run = Some \<sigma>'
         \<and> pcs \<sigma>' = [Crashed RunFault, Waiting]
         \<and> log (heap \<sigma>') = [GateSet 0, RunBegin 0, RunFailed 0]
         \<and> (fire failing_body pipeline_flow (Thread (Suc 0)) \<sigma>' = None)
             = (fire failing_body pipeline_flow (Thread (Suc 0)) in_run = None))
   \<and> simple_link pipeline_flow pipeline 0 (Suc 0) 3 (Suc 0)
   \<and> (\<forall>h. \<exists>e. failing_body 0 h = Inl e)
   \<and> run_schedule failing_body pipeline_flow [Kick, Thread 0] (Runner_start pipeline_flow pipeline)
       = Some in_run
   \<and> RunBegin (Suc 0) \<notin> set (log (heap in_run)) \<and> \<not> returned in_run"
proof -
  have h1: "0 < length (pcs in_run)" "0 < length (nodes pipeline_flow)" "pcs in_run ! 0 = Running"
    by code_simp+
  have h2: "failing_body (nodes pipeline_flow ! 0) (iheap (heap in_run)) = Inl RunFault"
    by (simp add: failing_body_def pipeline_flow_def addNode_def Flow_init_def)
  have h3: "\<forall>h. \<exists>e. failing_body 0 h = Inl e" by (simp add: failing_body_def)
  have "map_option (\<lambda>\<sigma>. True)
          (run_schedule failing_body pipeline_flow [Kick, Thread 0]
             (Runner_start pipeline_flow pipeline)) = Some True"
    by code_simp
  then have h4: "run_schedule failing_body pipeline_flow [Kick, Thread 0]
       (Runner_start pipeline_flow pipeline) = Some in_run"
    by (auto simp: in_run_def)
  have p: "pcs in_run = [Running, Waiting]" "log (heap in_run) = [GateSet 0, RunBegin 0]"
    by code_simp+
  have n0: "nodes pipeline_flow ! 0 = 0" by code_simp
  from fault_stays_local [of 0 in_run pipeline_flow failing_body RunFault pipeline 0 "Suc 0" 3
      "Suc 0" "[Kick, Thread 0]" in_run] h1 h2 h3 h4 pipeline_link
  show ?thesis by (auto simp: p n0)
qed

end
